theory Spec2Isabelle
  imports Main "HOL-Library.Multiset" "HOL-Library.Word" "HOL-Library.Monad_Syntax"
begin

section \<open>BinarySearchTree.hpp\<close>

text \<open>
  A tree node owns its two children exclusively, so a \<open>Node*\<close> is modelled as a value of a
  datatype: \<open>nullptr\<close> or a node with its \<open>data\<close>, \<open>left\<close> and \<open>right\<close> members. The element
  type \<open>T\<close> is used through \<open><\<close>, \<open>>\<close>, \<open><=\<close>, \<open>>=\<close> and \<open>==\<close>; it is a linear order here.

  The members \<open>root_\<close> and \<open>size_\<close> are the fields \<open>bst_root\<close> and \<open>bst_size\<close> (an Isabelle
  name cannot end in an underscore). \<open>size_\<close> is a \<open>size_t\<close> that counts live nodes; it is a
  natural number here, and the decrement is written as the truncating \<open>- 1\<close>: the helper
  decrements only after it has found a node.
\<close>

datatype 'a BST_Node = nullptr | Node (data: 'a) (left: "'a BST_Node") (right: "'a BST_Node")

record 'a BinarySearchTree =
  bst_root :: "'a BST_Node"
  bst_size :: nat

text \<open>The private helpers take \<open>size_\<close> as an argument and return it with the new subtree.\<close>

fun insert_node :: "'a::linorder BST_Node \<Rightarrow> 'a \<Rightarrow> nat \<Rightarrow> 'a BST_Node \<times> nat" where
  "insert_node nullptr v sz = (Node v nullptr nullptr, sz + 1)"
| "insert_node (Node d l r) v sz =
     (if v < d then (case insert_node l v sz of (l', sz') \<Rightarrow> (Node d l' r, sz'))
      else if v > d then (case insert_node r v sz of (r', sz') \<Rightarrow> (Node d l r', sz'))
      else (Node d l r, sz))"

fun findMin :: "'a BST_Node \<Rightarrow> 'a BST_Node" where
  "findMin nullptr = nullptr"
| "findMin (Node d l r) = (if l \<noteq> nullptr then findMin l else Node d l r)"

fun findMax :: "'a BST_Node \<Rightarrow> 'a BST_Node" where
  "findMax nullptr = nullptr"
| "findMax (Node d l r) = (if r \<noteq> nullptr then findMax r else Node d l r)"

fun remove_node :: "'a::linorder BST_Node \<Rightarrow> 'a \<Rightarrow> nat \<Rightarrow> 'a BST_Node \<times> nat" where
  "remove_node nullptr v sz = (nullptr, sz)"
| "remove_node (Node d l r) v sz =
     (if v < d then (case remove_node l v sz of (l', sz') \<Rightarrow> (Node d l' r, sz'))
      else if v > d then (case remove_node r v sz of (r', sz') \<Rightarrow> (Node d l r', sz'))
      else if l = nullptr then (r, sz - 1)
      else if r = nullptr then (l, sz - 1)
      else (case remove_node r (data (findMin r)) sz of
              (r', sz') \<Rightarrow> (Node (data (findMin r)) l r', sz')))"

fun search :: "'a::linorder BST_Node \<Rightarrow> 'a \<Rightarrow> bool" where
  "search nullptr v = False"
| "search (Node d l r) v =
     (if v = d then True else if v < d then search l v else search r v)"

text \<open>\<open>isValidBST\<close> takes the two bounds as pointers that may be null: options.\<close>

fun isValidBST :: "'a::linorder BST_Node \<Rightarrow> 'a option \<Rightarrow> 'a option \<Rightarrow> bool" where
  "isValidBST nullptr minVal maxVal = True"
| "isValidBST (Node d l r) minVal maxVal =
     (if (case minVal of None \<Rightarrow> False | Some lo \<Rightarrow> d \<le> lo) \<or>
         (case maxVal of None \<Rightarrow> False | Some hi \<Rightarrow> d \<ge> hi)
      then False
      else isValidBST l minVal (Some d) \<and> isValidBST r (Some d) maxVal)"

text \<open>The traversal helper appends to the vector it is given.\<close>

fun inorder :: "'a BST_Node \<Rightarrow> 'a list \<Rightarrow> 'a list" where
  "inorder nullptr result = result"
| "inorder (Node d l r) result = inorder r (inorder l result @ [d])"

definition BinarySearchTree :: "'a BinarySearchTree" where
  "BinarySearchTree = \<lparr>bst_root = nullptr, bst_size = 0\<rparr>"

definition bst_insert :: "'a::linorder BinarySearchTree \<Rightarrow> 'a \<Rightarrow> 'a BinarySearchTree" where
  "bst_insert t v =
     (case insert_node (bst_root t) v (bst_size t) of
        (n, sz) \<Rightarrow> \<lparr>bst_root = n, bst_size = sz\<rparr>)"

definition bst_remove :: "'a::linorder BinarySearchTree \<Rightarrow> 'a \<Rightarrow> 'a BinarySearchTree" where
  "bst_remove t v =
     (case remove_node (bst_root t) v (bst_size t) of
        (n, sz) \<Rightarrow> \<lparr>bst_root = n, bst_size = sz\<rparr>)"

text \<open>\<open>clear()\<close> releases every node (nothing of that is visible in a value) and resets
  both members.\<close>

definition bst_clear :: "'a BinarySearchTree \<Rightarrow> 'a BinarySearchTree" where
  "bst_clear t = \<lparr>bst_root = nullptr, bst_size = 0\<rparr>"

definition bst_contains :: "'a::linorder BinarySearchTree \<Rightarrow> 'a \<Rightarrow> bool" where
  "bst_contains t v = search (bst_root t) v"

definition minimum :: "'a BinarySearchTree \<Rightarrow> 'a option" where
  "minimum t = (case findMin (bst_root t) of nullptr \<Rightarrow> None | Node d l r \<Rightarrow> Some d)"

definition maximum :: "'a BinarySearchTree \<Rightarrow> 'a option" where
  "maximum t = (case findMax (bst_root t) of nullptr \<Rightarrow> None | Node d l r \<Rightarrow> Some d)"

definition inorderTraversal :: "'a BinarySearchTree \<Rightarrow> 'a list" where
  "inorderTraversal t = inorder (bst_root t) []"

definition isValid :: "'a::linorder BinarySearchTree \<Rightarrow> bool" where
  "isValid t = isValidBST (bst_root t) None None"

text \<open>The trees a caller can build: the empty one, and whatever \<open>insert\<close>, \<open>remove\<close> and
  \<open>clear\<close> make of a tree already built.\<close>

inductive bst_reachable :: "'a::linorder BinarySearchTree \<Rightarrow> bool" where
  bst_new: "bst_reachable BinarySearchTree"
| bst_ins: "bst_reachable t \<Longrightarrow> bst_reachable (bst_insert t v)"
| bst_rem: "bst_reachable t \<Longrightarrow> bst_reachable (bst_remove t v)"
| bst_clr: "bst_reachable t \<Longrightarrow> bst_reachable (bst_clear t)"

text \<open>The BST property as the data model states it: at every node, the values of the left
  subtree are strictly less and those of the right subtree strictly greater.\<close>

fun BST_property :: "'a::linorder BST_Node \<Rightarrow> bool" where
  "BST_property nullptr = True"
| "BST_property (Node d l r) =
     ((\<forall>x \<in> set_BST_Node l. x < d) \<and> (\<forall>x \<in> set_BST_Node r. d < x) \<and>
      BST_property l \<and> BST_property r)"

fun count_nodes :: "'a BST_Node \<Rightarrow> nat" where
  "count_nodes nullptr = 0"
| "count_nodes (Node d l r) = Suc (count_nodes l + count_nodes r)"

definition bst_inv :: "'a::linorder BinarySearchTree \<Rightarrow> bool" where
  "bst_inv t = (BST_property (bst_root t) \<and> bst_size t = count_nodes (bst_root t))"

text \<open>The open interval that \<open>isValidBST\<close> passes down: a null bound does not constrain.\<close>

definition above :: "'a::linorder option \<Rightarrow> 'a \<Rightarrow> bool" where
  "above minVal x = (case minVal of None \<Rightarrow> True | Some lo \<Rightarrow> lo < x)"

definition below :: "'a::linorder option \<Rightarrow> 'a \<Rightarrow> bool" where
  "below maxVal x = (case maxVal of None \<Rightarrow> True | Some hi \<Rightarrow> x < hi)"

text \<open>The scenario of the specification: insert 50, 30, 70, 20, 40, 60, 80, then remove 30.\<close>

definition demo_tree :: "int BinarySearchTree" where
  "demo_tree = bst_remove (foldl bst_insert BinarySearchTree [50, 30, 70, 20, 40, 60, 80]) 30"

section \<open>LinkedList.hpp\<close>

text \<open>
  The list is a chain of nodes in the free store, reached through \<open>head_\<close>, with \<open>tail_\<close>
  pointing into the same chain. The free store is a list of cells indexed by address:
  a cell holds the node that lives there, or nothing. A pointer is an optional address,
  \<open>None\<close> for \<open>nullptr\<close>. \<open>new\<close> takes the cell after the last one, so the address it returns
  is in use by no other node.

  An operation has no defined result (\<open>None\<close>) when it reads or writes through a null
  pointer or through a pointer to a cell without a node, or when its loop does not end.
  Otherwise it returns or throws: \<open>Inr\<close> of the returned value, \<open>Inl\<close> of the exception.
  A modifier also gives the free store and the members as they are when it returns or
  throws.

  The members \<open>head_\<close>, \<open>tail_\<close> and \<open>size_\<close> are the fields \<open>ll_head\<close>, \<open>ll_tail\<close> and
  \<open>ll_size\<close>. \<open>size_\<close> is a \<open>size_t\<close>; every decrement in the code is behind a check that
  it is not 0, and it is a natural number here.
\<close>

type_synonym addr = nat

record 'a LinkedList_Node =
  data :: 'a
  "next" :: "addr option"

type_synonym 'a heap = "'a LinkedList_Node option list"

record LinkedList =
  ll_head :: "addr option"
  ll_tail :: "addr option"
  ll_size :: nat

datatype exception = out_of_range string

type_synonym 'a modified = "((exception + unit) \<times> 'a heap \<times> LinkedList) option"

definition deref :: "'a heap \<Rightarrow> addr option \<Rightarrow> 'a LinkedList_Node option" where
  "deref h p = (case p of None \<Rightarrow> None | Some a \<Rightarrow> if a < length h then h ! a else None)"

definition set_next :: "'a heap \<Rightarrow> addr option \<Rightarrow> addr option \<Rightarrow> 'a heap option" where
  "set_next h p q =
     (case p of None \<Rightarrow> None
      | Some a \<Rightarrow> (case deref h p of None \<Rightarrow> None
                  | Some n \<Rightarrow> Some (h[a := Some (n\<lparr>next := q\<rparr>)])))"

definition new_Node :: "'a heap \<Rightarrow> 'a \<Rightarrow> addr option \<times> 'a heap" where
  "new_Node h v = (Some (length h), h @ [Some \<lparr>data = v, next = None\<rparr>])"

text \<open>\<open>delete\<close> of a null pointer does nothing; \<open>delete\<close> of a cell without a node is
  undefined.\<close>

definition delete_Node :: "'a heap \<Rightarrow> addr option \<Rightarrow> 'a heap option" where
  "delete_Node h p =
     (case p of None \<Rightarrow> Some h
      | Some a \<Rightarrow> (case deref h p of None \<Rightarrow> None | Some n \<Rightarrow> Some (h[a := None])))"

definition LinkedList :: LinkedList where
  "LinkedList = \<lparr>ll_head = None, ll_tail = None, ll_size = 0\<rparr>"

definition ll_empty :: "LinkedList \<Rightarrow> bool" where
  "ll_empty l = (ll_size l = 0)"

definition ll_front :: "'a heap \<Rightarrow> LinkedList \<Rightarrow> (exception + 'a) option" where
  "ll_front h l =
     (if ll_empty l then Some (Inl (out_of_range ''List is empty''))
      else do { n \<leftarrow> deref h (ll_head l); Some (Inr (data n)) })"

definition ll_back :: "'a heap \<Rightarrow> LinkedList \<Rightarrow> (exception + 'a) option" where
  "ll_back h l =
     (if ll_empty l then Some (Inl (out_of_range ''List is empty''))
      else do { n \<leftarrow> deref h (ll_tail l); Some (Inr (data n)) })"

text \<open>The loop \<open>for (size_t i = 0; i < n; ++i) curr = curr->next\<close>, from \<open>i\<close> on (the variable
  \<open>curr\<close> is written \<open>cur\<close> throughout).\<close>

function walk :: "'a heap \<Rightarrow> addr option \<Rightarrow> nat \<Rightarrow> nat \<Rightarrow> addr option option" where
  "walk h cur i n =
     (if i < n
      then (case deref h cur of None \<Rightarrow> None | Some c \<Rightarrow> walk h (next c) (i + 1) n)
      else Some cur)"
  by pat_completeness auto
termination
  by (relation "measure (\<lambda>(h, cur, i, n). n - i)") auto

definition at :: "'a heap \<Rightarrow> LinkedList \<Rightarrow> nat \<Rightarrow> (exception + 'a) option" where
  "at h l index =
     (if index \<ge> ll_size l then Some (Inl (out_of_range ''Index out of bounds''))
      else do {
        cur \<leftarrow> walk h (ll_head l) 0 index;
        c \<leftarrow> deref h cur;
        Some (Inr (data c))
      })"

definition push_front :: "'a heap \<Rightarrow> LinkedList \<Rightarrow> 'a \<Rightarrow> 'a modified" where
  "push_front h l v =
     (case new_Node h v of (newNode, h1) \<Rightarrow> do {
        h2 \<leftarrow> set_next h1 newNode (ll_head l);
        let l1 = l\<lparr>ll_head := newNode\<rparr>;
        let l2 = (if ll_tail l1 = None then l1\<lparr>ll_tail := ll_head l1\<rparr> else l1);
        Some (Inr (), h2, l2\<lparr>ll_size := ll_size l2 + 1\<rparr>)
      })"

definition push_back :: "'a heap \<Rightarrow> LinkedList \<Rightarrow> 'a \<Rightarrow> 'a modified" where
  "push_back h l v =
     (case new_Node h v of (newNode, h1) \<Rightarrow>
        if ll_tail l \<noteq> None then do {
          h2 \<leftarrow> set_next h1 (ll_tail l) newNode;
          Some (Inr (), h2, l\<lparr>ll_tail := newNode, ll_size := ll_size l + 1\<rparr>)
        }
        else Some (Inr (), h1, l\<lparr>ll_head := newNode, ll_tail := newNode,
                                 ll_size := ll_size l + 1\<rparr>))"

definition pop_front :: "'a heap \<Rightarrow> LinkedList \<Rightarrow> 'a modified" where
  "pop_front h l =
     (if ll_empty l then Some (Inl (out_of_range ''List is empty''), h, l)
      else do {
        temp \<leftarrow> deref h (ll_head l);
        h1 \<leftarrow> delete_Node h (ll_head l);
        let l1 = l\<lparr>ll_head := next temp, ll_size := ll_size l - 1\<rparr>;
        Some (Inr (), h1, if ll_empty l1 then l1\<lparr>ll_tail := None\<rparr> else l1)
      })"

text \<open>The loop \<open>while (curr->next != tail_) curr = curr->next\<close> of \<open>pop_back\<close>.\<close>

partial_function (option) pop_back_loop ::
  "'a heap \<Rightarrow> addr option \<Rightarrow> addr option \<Rightarrow> addr option option" where
  "pop_back_loop h tail cur =
     (case deref h cur of None \<Rightarrow> None
      | Some c \<Rightarrow> if next c \<noteq> tail then pop_back_loop h tail (next c) else Some cur)"

definition pop_back :: "'a heap \<Rightarrow> LinkedList \<Rightarrow> 'a modified" where
  "pop_back h l =
     (if ll_empty l then Some (Inl (out_of_range ''List is empty''), h, l)
      else if ll_size l = 1 then do {
        h1 \<leftarrow> delete_Node h (ll_head l);
        Some (Inr (), h1, l\<lparr>ll_head := None, ll_tail := None, ll_size := ll_size l - 1\<rparr>)
      }
      else do {
        cur \<leftarrow> pop_back_loop h (ll_tail l) (ll_head l);
        h1 \<leftarrow> delete_Node h (ll_tail l);
        h2 \<leftarrow> set_next h1 cur None;
        Some (Inr (), h2, l\<lparr>ll_tail := cur, ll_size := ll_size l - 1\<rparr>)
      })"

definition ll_insert :: "'a heap \<Rightarrow> LinkedList \<Rightarrow> nat \<Rightarrow> 'a \<Rightarrow> 'a modified" where
  "ll_insert h l index v =
     (if index > ll_size l then Some (Inl (out_of_range ''Index out of bounds''), h, l)
      else if index = 0 then push_front h l v
      else if index = ll_size l then push_back h l v
      else do {
        cur \<leftarrow> walk h (ll_head l) 0 (index - 1);
        case new_Node h v of (newNode, h1) \<Rightarrow> do {
          c \<leftarrow> deref h1 cur;
          h2 \<leftarrow> set_next h1 newNode (next c);
          h3 \<leftarrow> set_next h2 cur newNode;
          Some (Inr (), h3, l\<lparr>ll_size := ll_size l + 1\<rparr>)
        }
      })"

definition erase :: "'a heap \<Rightarrow> LinkedList \<Rightarrow> nat \<Rightarrow> 'a modified" where
  "erase h l index =
     (if index \<ge> ll_size l then Some (Inl (out_of_range ''Index out of bounds''), h, l)
      else if index = 0 then pop_front h l
      else do {
        cur \<leftarrow> walk h (ll_head l) 0 (index - 1);
        c \<leftarrow> deref h cur;
        let toDelete = next c;
        d \<leftarrow> deref h toDelete;
        h1 \<leftarrow> set_next h cur (next d);
        let l1 = (if toDelete = ll_tail l then l\<lparr>ll_tail := cur\<rparr> else l);
        h2 \<leftarrow> delete_Node h1 toDelete;
        Some (Inr (), h2, l1\<lparr>ll_size := ll_size l1 - 1\<rparr>)
      })"

text \<open>The loop \<open>while (curr)\<close> of \<open>reverse\<close>; it returns the free store and \<open>prev\<close>.\<close>

partial_function (option) reverse_loop ::
  "'a heap \<Rightarrow> addr option \<Rightarrow> addr option \<Rightarrow> ('a heap \<times> addr option) option" where
  "reverse_loop h prev cur =
     (if cur \<noteq> None
      then (case deref h cur of None \<Rightarrow> None
            | Some c \<Rightarrow> (case set_next h cur prev of None \<Rightarrow> None
                        | Some h1 \<Rightarrow> reverse_loop h1 cur (next c)))
      else Some (h, prev))"

definition reverse :: "'a heap \<Rightarrow> LinkedList \<Rightarrow> 'a modified" where
  "reverse h l =
     (let l1 = l\<lparr>ll_tail := ll_head l\<rparr> in
      case reverse_loop h None (ll_head l1) of None \<Rightarrow> None
      | Some (h1, prev) \<Rightarrow> Some (Inr (), h1, l1\<lparr>ll_head := prev\<rparr>))"

text \<open>
  What a caller sees of a list: the nodes met from \<open>head_\<close> on. \<open>chain h p n\<close> follows \<open>n\<close>
  links from \<open>p\<close> and gives the address and the value of each node, provided the last link
  is null. The invariant of the data model: \<open>size_\<close> is the number of nodes reachable from
  \<open>head_\<close>, and \<open>tail_\<close> points to the last of them, or is null when there is none.
\<close>

fun chain :: "'a heap \<Rightarrow> addr option \<Rightarrow> nat \<Rightarrow> (addr \<times> 'a) list option" where
  "chain h p 0 = (if p = None then Some [] else None)"
| "chain h p (Suc n) =
     (case p of None \<Rightarrow> None
      | Some a \<Rightarrow> (case deref h p of None \<Rightarrow> None
                  | Some c \<Rightarrow> map_option ((#) (a, data c)) (chain h (next c) n)))"

definition LinkedList_inv :: "'a heap \<Rightarrow> LinkedList \<Rightarrow> bool" where
  "LinkedList_inv h l =
     (case chain h (ll_head l) (ll_size l) of None \<Rightarrow> False
      | Some ns \<Rightarrow> ll_tail l = (if ns = [] then None else Some (fst (last ns))))"

definition elements :: "'a heap \<Rightarrow> LinkedList \<Rightarrow> 'a list" where
  "elements h l = (case chain h (ll_head l) (ll_size l) of None \<Rightarrow> [] | Some ns \<Rightarrow> map snd ns)"

text \<open>The outcome of a modifier without the state, and the two ways a call can end.\<close>

definition outcome :: "'a modified \<Rightarrow> (exception + unit) option" where
  "outcome r = map_option fst r"

definition throws :: "string \<Rightarrow> (exception + 'r) option \<Rightarrow> bool" where
  "throws msg r = (r = Some (Inl (out_of_range msg)))"

definition returns :: "(exception + 'r) option \<Rightarrow> bool" where
  "returns r = (case r of Some (Inr v) \<Rightarrow> True | _ \<Rightarrow> False)"

text \<open>A list as the initializer-list constructor builds it: 10, 20, 30 pushed to the back of an
  empty list, and the free store and members that result.\<close>

fun push_all :: "'a heap \<Rightarrow> LinkedList \<Rightarrow> 'a list \<Rightarrow> ('a heap \<times> LinkedList) option" where
  "push_all h l [] = Some (h, l)"
| "push_all h l (v # vs) =
     (case push_back h l v of Some (Inr u, h1, l1) \<Rightarrow> push_all h1 l1 vs | _ \<Rightarrow> None)"

text \<open>For the proofs: the addresses \<open>as\<close> lead from \<open>p\<close> to \<open>q\<close> along the \<open>next\<close> links, and the
  invariant written with the addresses of the nodes.\<close>

fun path :: "'a heap \<Rightarrow> addr option \<Rightarrow> addr list \<Rightarrow> addr option \<Rightarrow> bool" where
  "path h p [] q = (p = q)"
| "path h p (a # as) q =
     (p = Some a \<and> (case deref h p of None \<Rightarrow> False | Some c \<Rightarrow> path h (next c) as q))"

definition node_value :: "'a heap \<Rightarrow> addr \<Rightarrow> 'a" where
  "node_value h a = data (the (deref h (Some a)))"

definition list_at :: "'a heap \<Rightarrow> LinkedList \<Rightarrow> addr list \<Rightarrow> bool" where
  "list_at h l as =
     (path h (ll_head l) as None \<and> ll_size l = length as \<and>
      ll_tail l = (if as = [] then None else Some (last as)))"

definition demo_heap :: "int heap" where
  "demo_heap =
     [Some \<lparr>data = 10, next = Some 1\<rparr>, Some \<lparr>data = 20, next = Some 2\<rparr>,
      Some \<lparr>data = 30, next = None\<rparr>]"

definition demo_list :: LinkedList where
  "demo_list = \<lparr>ll_head = Some 0, ll_tail = Some 2, ll_size = 3\<rparr>"

section \<open>Sorting.hpp\<close>

text \<open>
  A \<open>std::vector<T>\<close> is a list; the comparator \<open>comp\<close> is a function \<open>cmp\<close>. Reading or writing
  \<open>arr[i]\<close> outside the vector is undefined behaviour: a sort has no defined result
  (\<open>None\<close>) when it does so, and otherwise \<open>Some\<close> of the vector it leaves.

  A \<open>size_t\<close> is a natural number below \<open>2 ^ 64\<close>, and its subtraction wraps around. An
  \<open>int\<close> has 32 bits; \<open>static_cast<int>\<close> of a size keeps the low 32 bits as a two's
  complement value. The \<open>int\<close> indices of \<open>insertionSort\<close>, \<open>mergeSort\<close> and \<open>quickSort\<close> stay
  between \<open>-1\<close> and the size of the vector, so their arithmetic is that of the integers;
  \<open>heapify\<close> doubles an index, and there the overflow of \<open>int\<close>, which is undefined, is
  written out. The parameters \<open>left\<close> and \<open>right\<close> are written \<open>lo\<close> and \<open>hi\<close>.
\<close>

definition size_t_sub :: "nat \<Rightarrow> nat \<Rightarrow> nat" where
  "size_t_sub a b = (a + 2 ^ 64 - b) mod 2 ^ 64"

definition static_cast_int :: "nat \<Rightarrow> int" where
  "static_cast_int n = sint (word_of_nat n :: 32 word)"

definition vec_at :: "'a list \<Rightarrow> int \<Rightarrow> 'a option" where
  "vec_at arr i = (if 0 \<le> i \<and> nat i < length arr then Some (arr ! nat i) else None)"

definition vec_set :: "'a list \<Rightarrow> int \<Rightarrow> 'a \<Rightarrow> 'a list option" where
  "vec_set arr i x = (if 0 \<le> i \<and> nat i < length arr then Some (arr[nat i := x]) else None)"

text \<open>\<open>std::swap(arr[i], arr[j])\<close> with indices of type \<open>size_t\<close>.\<close>

definition swap :: "'a list \<Rightarrow> nat \<Rightarrow> nat \<Rightarrow> 'a list" where
  "swap arr i j = arr[i := arr ! j, j := arr ! i]"

subsection \<open>bubbleSort\<close>

text \<open>The inner loop, from \<open>j\<close> on, with the flag \<open>swapped\<close>; \<open>j\<close> stays below its bound, so
  \<open>++j\<close> and \<open>j + 1\<close> do not wrap.\<close>

function bubble_inner ::
  "('a \<Rightarrow> 'a \<Rightarrow> bool) \<Rightarrow> nat \<Rightarrow> nat \<Rightarrow> nat \<Rightarrow> 'a list \<Rightarrow> bool \<Rightarrow> ('a list \<times> bool) option"
where
  "bubble_inner cmp n i j arr swapped =
     (if j < size_t_sub (size_t_sub n i) 1
      then (if j + 1 < length arr
            then (if cmp (arr ! (j + 1)) (arr ! j)
                  then bubble_inner cmp n i (j + 1) (swap arr j (j + 1)) True
                  else bubble_inner cmp n i (j + 1) arr swapped)
            else None)
      else Some (arr, swapped))"
  by pat_completeness auto
termination
  by (relation "measure (\<lambda>(cmp, n, i, j, arr, swapped). size_t_sub (size_t_sub n i) 1 - j)")
    auto

function bubble_outer ::
  "('a \<Rightarrow> 'a \<Rightarrow> bool) \<Rightarrow> nat \<Rightarrow> nat \<Rightarrow> 'a list \<Rightarrow> 'a list option"
where
  "bubble_outer cmp n i arr =
     (if i < size_t_sub n 1
      then (case bubble_inner cmp n i 0 arr False of None \<Rightarrow> None
            | Some (arr', swapped) \<Rightarrow>
                if \<not> swapped then Some arr' else bubble_outer cmp n (i + 1) arr')
      else Some arr)"
  by pat_completeness auto
termination
  by (relation "measure (\<lambda>(cmp, n, i, arr). size_t_sub n 1 - i)") auto

declare bubble_inner.simps [simp del]

declare bubble_outer.simps [simp del]

definition bubbleSort :: "('a \<Rightarrow> 'a \<Rightarrow> bool) \<Rightarrow> 'a list \<Rightarrow> 'a list option" where
  "bubbleSort cmp arr = bubble_outer cmp (length arr) 0 arr"

subsection \<open>isSorted\<close>

function isSorted_from :: "('a \<Rightarrow> 'a \<Rightarrow> bool) \<Rightarrow> 'a list \<Rightarrow> nat \<Rightarrow> bool" where
  "isSorted_from cmp arr i =
     (if i < length arr
      then (if cmp (arr ! i) (arr ! (i - 1)) then False else isSorted_from cmp arr (i + 1))
      else True)"
  by pat_completeness auto
termination
  by (relation "measure (\<lambda>(cmp, arr, i). length arr - i)") auto

declare isSorted_from.simps [simp del]

definition isSorted :: "('a \<Rightarrow> 'a \<Rightarrow> bool) \<Rightarrow> 'a list \<Rightarrow> bool" where
  "isSorted cmp arr = isSorted_from cmp arr 1"

subsection \<open>insertionSort\<close>

text \<open>The loop \<open>while (j >= 0 && comp(key, arr[j]))\<close>; it returns the vector and \<open>j\<close>.\<close>

function insertion_inner ::
  "('a \<Rightarrow> 'a \<Rightarrow> bool) \<Rightarrow> 'a \<Rightarrow> 'a list \<Rightarrow> int \<Rightarrow> ('a list \<times> int) option"
where
  "insertion_inner cmp key arr j =
     (if j \<ge> 0
      then (case vec_at arr j of None \<Rightarrow> None
            | Some x \<Rightarrow>
                if cmp key x
                then (case vec_set arr (j + 1) x of None \<Rightarrow> None
                      | Some arr' \<Rightarrow> insertion_inner cmp key arr' (j - 1))
                else Some (arr, j))
      else Some (arr, j))"
  by pat_completeness auto
termination
  by (relation "measure (\<lambda>(cmp, key, arr, j). nat (j + 1))") auto

text \<open>One round of the outer loop: take \<open>arr[i]\<close> as the key, shift, and store the key.\<close>

definition insertion_step :: "('a \<Rightarrow> 'a \<Rightarrow> bool) \<Rightarrow> 'a list \<Rightarrow> nat \<Rightarrow> 'a list option" where
  "insertion_step cmp arr i =
     (if i < length arr
      then (case insertion_inner cmp (arr ! i) arr (static_cast_int i - 1) of None \<Rightarrow> None
            | Some (arr', j) \<Rightarrow> vec_set arr' (j + 1) (arr ! i))
      else None)"

declare insertion_inner.simps [simp del]

lemma insertion_inner_length:
  "insertion_inner cmp key arr j = Some (arr', j') \<Longrightarrow> length arr' = length arr"
proof (induction cmp key arr j rule: insertion_inner.induct)
  case (1 cmp key arr j)
  show ?case
  proof (cases "j \<ge> 0 \<and> (\<exists>x. vec_at arr j = Some x \<and> cmp key x)")
    case True
    then obtain x where x: "vec_at arr j = Some x" "cmp key x" "j \<ge> 0" by blast
    with "1.prems" obtain arr1 where a: "vec_set arr (j + 1) x = Some arr1"
      and r: "insertion_inner cmp key arr1 (j - 1) = Some (arr', j')"
      by (subst (asm) insertion_inner.simps) (auto split: option.splits)
    from a have "length arr1 = length arr" by (auto simp: vec_set_def split: if_splits)
    with "1.IH" [OF x(3) x(1) x(2) a r] show ?thesis by simp
  next
    case False
    with "1.prems" have "arr' = arr"
      by (subst (asm) insertion_inner.simps) (auto split: option.splits if_splits)
    then show ?thesis by simp
  qed
qed

lemma insertion_step_length:
  assumes "insertion_step cmp arr i = Some arr'"
  shows "length arr' = length arr"
proof -
  from assms obtain arr1 j where 1: "insertion_inner cmp (arr ! i) arr (static_cast_int i - 1) = Some (arr1, j)"
    and 2: "vec_set arr1 (j + 1) (arr ! i) = Some arr'"
    by (auto simp: insertion_step_def split: if_splits option.splits)
  from 2 have "length arr' = length arr1" by (auto simp: vec_set_def split: if_splits)
  with insertion_inner_length [OF 1] show ?thesis by simp
qed

function insertion_outer ::
  "('a \<Rightarrow> 'a \<Rightarrow> bool) \<Rightarrow> 'a list \<Rightarrow> nat \<Rightarrow> 'a list option"
where
  "insertion_outer cmp arr i =
     (if i < length arr
      then (case insertion_step cmp arr i of None \<Rightarrow> None
            | Some arr' \<Rightarrow> insertion_outer cmp arr' (i + 1))
      else Some arr)"
  by pat_completeness auto
termination
  by (relation "measure (\<lambda>(cmp, arr, i). length arr - i)")
    (auto dest: insertion_step_length)

declare insertion_outer.simps [simp del]

definition insertionSort :: "('a \<Rightarrow> 'a \<Rightarrow> bool) \<Rightarrow> 'a list \<Rightarrow> 'a list option" where
  "insertionSort cmp arr = insertion_outer cmp arr 1"

subsection \<open>mergeSort\<close>

text \<open>
  \<open>detail::merge\<close> fills \<open>temp\<close>, a vector of \<open>right - left + 1\<close> elements, from index 0 upwards:
  \<open>temp\<close> is the list of the elements written so far, \<open>k\<close> is its length, and a write
  beyond the size of \<open>temp\<close> is undefined. The first loop takes \<open>arr[i]\<close> when
  \<open>comp(arr[i], arr[j])\<close> holds and \<open>arr[j]\<close> otherwise.
\<close>

definition push_temp :: "int \<Rightarrow> 'a list \<Rightarrow> 'a \<Rightarrow> 'a list option" where
  "push_temp cap temp x = (if int (length temp) < cap then Some (temp @ [x]) else None)"

function merge_both ::
  "('a \<Rightarrow> 'a \<Rightarrow> bool) \<Rightarrow> 'a list \<Rightarrow> int \<Rightarrow> int \<Rightarrow> int \<Rightarrow> int \<Rightarrow> int \<Rightarrow> 'a list \<Rightarrow>
   (int \<times> int \<times> 'a list) option"
where
  "merge_both cmp arr mid hi cap i j temp =
     (if i \<le> mid \<and> j \<le> hi
      then (case vec_at arr i of None \<Rightarrow> None
            | Some x \<Rightarrow>
               (case vec_at arr j of None \<Rightarrow> None
                | Some y \<Rightarrow>
                   if cmp x y
                   then (case push_temp cap temp x of None \<Rightarrow> None
                         | Some temp' \<Rightarrow> merge_both cmp arr mid hi cap (i + 1) j temp')
                   else (case push_temp cap temp y of None \<Rightarrow> None
                         | Some temp' \<Rightarrow> merge_both cmp arr mid hi cap i (j + 1) temp')))
      else Some (i, j, temp))"
  by pat_completeness auto
termination
  by (relation "measure (\<lambda>(cmp, arr, mid, hi, cap, i, j, temp).
        nat (mid + 1 - i) + nat (hi + 1 - j))") auto

text \<open>The loops \<open>while (i <= mid) temp[k++] = arr[i++]\<close> and
  \<open>while (j <= right) temp[k++] = arr[j++]\<close>: copy from \<open>i\<close> up to \<open>last_i\<close>.\<close>

function merge_rest :: "'a list \<Rightarrow> int \<Rightarrow> int \<Rightarrow> int \<Rightarrow> 'a list \<Rightarrow> 'a list option" where
  "merge_rest arr last_i cap i temp =
     (if i \<le> last_i
      then (case vec_at arr i of None \<Rightarrow> None
            | Some x \<Rightarrow> (case push_temp cap temp x of None \<Rightarrow> None
                        | Some temp' \<Rightarrow> merge_rest arr last_i cap (i + 1) temp'))
      else Some temp)"
  by pat_completeness auto
termination
  by (relation "measure (\<lambda>(arr, last_i, cap, i, temp). nat (last_i + 1 - i))") auto

text \<open>The loop \<open>for (int p = 0; p < k; ++p) arr[left + p] = temp[p]\<close>.\<close>

function merge_copy :: "'a list \<Rightarrow> int \<Rightarrow> 'a list \<Rightarrow> int \<Rightarrow> 'a list option" where
  "merge_copy arr lo temp p =
     (if p < int (length temp)
      then (case vec_set arr (lo + p) (temp ! nat p) of None \<Rightarrow> None
            | Some arr' \<Rightarrow> merge_copy arr' lo temp (p + 1))
      else Some arr)"
  by pat_completeness auto
termination
  by (relation "measure (\<lambda>(arr, lo, temp, p). nat (int (length temp) - p))") auto

definition detail_merge ::
  "('a \<Rightarrow> 'a \<Rightarrow> bool) \<Rightarrow> 'a list \<Rightarrow> int \<Rightarrow> int \<Rightarrow> int \<Rightarrow> 'a list option"
where
  "detail_merge cmp arr lo mid hi =
     (let cap = hi - lo + 1 in
      case merge_both cmp arr mid hi cap lo (mid + 1) [] of None \<Rightarrow> None
      | Some (i, j, temp1) \<Rightarrow>
         (case merge_rest arr mid cap i temp1 of None \<Rightarrow> None
          | Some temp2 \<Rightarrow>
             (case merge_rest arr hi cap j temp2 of None \<Rightarrow> None
              | Some temp3 \<Rightarrow> merge_copy arr lo temp3 0)))"

text \<open>\<open>detail::mergeSort\<close>; \<open>right - left\<close> is positive where it is halved, so the
  truncating division of C++ is \<open>div\<close>.\<close>

function detail_mergeSort ::
  "('a \<Rightarrow> 'a \<Rightarrow> bool) \<Rightarrow> 'a list \<Rightarrow> int \<Rightarrow> int \<Rightarrow> 'a list option"
where
  "detail_mergeSort cmp arr lo hi =
     (if lo < hi
      then (case detail_mergeSort cmp arr lo (lo + (hi - lo) div 2) of None \<Rightarrow> None
            | Some arr1 \<Rightarrow>
               (case detail_mergeSort cmp arr1 (lo + (hi - lo) div 2 + 1) hi of
                  None \<Rightarrow> None
                | Some arr2 \<Rightarrow>
                    detail_merge cmp arr2 lo (lo + (hi - lo) div 2) hi))
      else Some arr)"
  by pat_completeness auto
termination
  by (relation "measure (\<lambda>(cmp, arr, lo, hi). nat (hi - lo))") auto

declare merge_both.simps [simp del]

declare merge_rest.simps [simp del]

declare merge_copy.simps [simp del]

declare detail_mergeSort.simps [simp del]

definition mergeSort :: "('a \<Rightarrow> 'a \<Rightarrow> bool) \<Rightarrow> 'a list \<Rightarrow> 'a list option" where
  "mergeSort cmp arr =
     (if length arr > 1
      then detail_mergeSort cmp arr 0 (static_cast_int (length arr) - 1)
      else Some arr)"

text \<open>
  Stability, on an input \<open>xs\<close> and an output \<open>ys\<close>: for every element \<open>k\<close> of the input, the
  elements that compare equal to \<open>k\<close> (neither \<open>comp(x, k)\<close> nor \<open>comp(k, x)\<close>) come in the
  output in the order they have in the input.
\<close>

definition equal_under :: "('a \<Rightarrow> 'a \<Rightarrow> bool) \<Rightarrow> 'a \<Rightarrow> 'a \<Rightarrow> bool" where
  "equal_under cmp k x = (\<not> cmp x k \<and> \<not> cmp k x)"

definition stable_output :: "('a \<Rightarrow> 'a \<Rightarrow> bool) \<Rightarrow> 'a list \<Rightarrow> 'a list \<Rightarrow> bool" where
  "stable_output cmp xs ys =
     (\<forall>k \<in> set xs. filter (equal_under cmp k) ys = filter (equal_under cmp k) xs)"

text \<open>Records with a key and a tag, ordered by the key alone.\<close>

definition by_key :: "nat \<times> string \<Rightarrow> nat \<times> string \<Rightarrow> bool" where
  "by_key a b = (fst a < fst b)"

subsection \<open>Comparators and what the sorts compute\<close>

text \<open>
  A comparator is a strict weak order: irreflexive, transitive, and with a transitive
  ``neither before the other''. \<open>insert_back cmp key xs\<close> is what one round of
  \<open>insertionSort\<close> makes of the sorted prefix \<open>xs\<close> and the key: the key goes in front of
  the longest run of elements at the end of \<open>xs\<close> that it compares before.
\<close>

definition strict_weak_order :: "('a \<Rightarrow> 'a \<Rightarrow> bool) \<Rightarrow> bool" where
  "strict_weak_order cmp =
     ((\<forall>x. \<not> cmp x x) \<and> (\<forall>x y z. cmp x y \<longrightarrow> cmp y z \<longrightarrow> cmp x z) \<and>
      (\<forall>x y z. equal_under cmp x y \<longrightarrow> equal_under cmp y z \<longrightarrow> equal_under cmp x z))"

definition insert_back :: "('a \<Rightarrow> 'a \<Rightarrow> bool) \<Rightarrow> 'a \<Rightarrow> 'a list \<Rightarrow> 'a list" where
  "insert_back cmp key xs =
     rev (dropWhile (cmp key) (rev xs)) @ key # rev (takeWhile (cmp key) (rev xs))"

text \<open>
  One pass of \<open>bubbleSort\<close> over a list: adjacent elements are compared from the left and
  swapped when the right one compares before the left one; \<open>bubble_swaps\<close> tells whether
  the pass swaps at all.
\<close>

fun bubble :: "('a \<Rightarrow> 'a \<Rightarrow> bool) \<Rightarrow> 'a list \<Rightarrow> 'a list" where
  "bubble cmp [] = []"
| "bubble cmp [x] = [x]"
| "bubble cmp (x # y # ys) = (if cmp y x then y # bubble cmp (x # ys) else x # bubble cmp (y # ys))"

fun bubble_swaps :: "('a \<Rightarrow> 'a \<Rightarrow> bool) \<Rightarrow> 'a list \<Rightarrow> bool" where
  "bubble_swaps cmp [] = False"
| "bubble_swaps cmp [x] = False"
| "bubble_swaps cmp (x # y # ys) = (if cmp y x then True else bubble_swaps cmp (y # ys))"

subsection \<open>selectionSort\<close>

text \<open>The inner loop, from \<open>j\<close> on, with the index \<open>minIdx\<close> found so far.\<close>

function selection_inner ::
  "('a \<Rightarrow> 'a \<Rightarrow> bool) \<Rightarrow> nat \<Rightarrow> 'a list \<Rightarrow> nat \<Rightarrow> nat \<Rightarrow> nat option"
where
  "selection_inner cmp n arr j minIdx =
     (if j < n
      then (if j < length arr \<and> minIdx < length arr
            then (if cmp (arr ! j) (arr ! minIdx)
                  then selection_inner cmp n arr (j + 1) j
                  else selection_inner cmp n arr (j + 1) minIdx)
            else None)
      else Some minIdx)"
  by pat_completeness auto
termination
  by (relation "measure (\<lambda>(cmp, n, arr, j, minIdx). n - j)") auto

function selection_outer ::
  "('a \<Rightarrow> 'a \<Rightarrow> bool) \<Rightarrow> nat \<Rightarrow> nat \<Rightarrow> 'a list \<Rightarrow> 'a list option"
where
  "selection_outer cmp n i arr =
     (if i < size_t_sub n 1
      then (case selection_inner cmp n arr (i + 1) i of None \<Rightarrow> None
            | Some minIdx \<Rightarrow>
                if minIdx \<noteq> i
                then (if i < length arr \<and> minIdx < length arr
                      then selection_outer cmp n (i + 1) (swap arr i minIdx)
                      else None)
                else selection_outer cmp n (i + 1) arr)
      else Some arr)"
  by pat_completeness auto
termination
  by (relation "measure (\<lambda>(cmp, n, i, arr). size_t_sub n 1 - i)") auto

declare selection_inner.simps [simp del]

declare selection_outer.simps [simp del]

definition selectionSort :: "('a \<Rightarrow> 'a \<Rightarrow> bool) \<Rightarrow> 'a list \<Rightarrow> 'a list option" where
  "selectionSort cmp arr = selection_outer cmp (length arr) 0 arr"

text \<open>
  What \<open>detail::merge\<close> computes from the two runs: the element of the left run goes first
  only when it compares before the element of the right run. \<open>slice arr a b\<close> is the part
  of the vector from index \<open>a\<close> up to, not including, index \<open>b\<close>.
\<close>

fun merge_lists :: "('a \<Rightarrow> 'a \<Rightarrow> bool) \<Rightarrow> 'a list \<Rightarrow> 'a list \<Rightarrow> 'a list" where
  "merge_lists cmp (x # xs) (y # ys) =
     (if cmp x y then x # merge_lists cmp xs (y # ys) else y # merge_lists cmp (x # xs) ys)"
| "merge_lists cmp xs [] = xs"
| "merge_lists cmp [] ys = ys"

definition slice :: "'a list \<Rightarrow> nat \<Rightarrow> nat \<Rightarrow> 'a list" where
  "slice arr a b = take (b - a) (drop a arr)"

subsection \<open>quickSort\<close>

text \<open>\<open>std::swap(arr[i], arr[j])\<close> with indices of type \<open>int\<close>.\<close>

definition swap_int :: "'a list \<Rightarrow> int \<Rightarrow> int \<Rightarrow> 'a list option" where
  "swap_int arr i j =
     (if 0 \<le> i \<and> nat i < length arr \<and> 0 \<le> j \<and> nat j < length arr
      then Some (swap arr (nat i) (nat j)) else None)"

text \<open>The loop of \<open>detail::partition\<close>, from \<open>j\<close> on; it returns the vector and \<open>i\<close>.\<close>

function partition_loop ::
  "('a \<Rightarrow> 'a \<Rightarrow> bool) \<Rightarrow> 'a \<Rightarrow> int \<Rightarrow> 'a list \<Rightarrow> int \<Rightarrow> int \<Rightarrow> ('a list \<times> int) option"
where
  "partition_loop cmp pivot hi arr i j =
     (if j < hi
      then (case vec_at arr j of None \<Rightarrow> None
            | Some x \<Rightarrow>
                if cmp x pivot
                then (case swap_int arr (i + 1) j of None \<Rightarrow> None
                      | Some arr' \<Rightarrow> partition_loop cmp pivot hi arr' (i + 1) (j + 1))
                else partition_loop cmp pivot hi arr i (j + 1))
      else Some (arr, i))"
  by pat_completeness auto
termination
  by (relation "measure (\<lambda>(cmp, pivot, hi, arr, i, j). nat (hi - j))") auto

declare partition_loop.simps [simp del]

definition detail_partition ::
  "('a \<Rightarrow> 'a \<Rightarrow> bool) \<Rightarrow> 'a list \<Rightarrow> int \<Rightarrow> int \<Rightarrow> ('a list \<times> int) option"
where
  "detail_partition cmp arr lo hi =
     (case vec_at arr hi of None \<Rightarrow> None
      | Some pivot \<Rightarrow>
          (case partition_loop cmp pivot hi arr (lo - 1) lo of None \<Rightarrow> None
           | Some (arr1, i) \<Rightarrow>
               (case swap_int arr1 (i + 1) hi of None \<Rightarrow> None
                | Some arr2 \<Rightarrow> Some (arr2, i + 1))))"

lemma partition_loop_bounds:
  "partition_loop cmp pivot hi arr i j = Some (arr', i') \<Longrightarrow> i < j \<Longrightarrow> j \<le> hi \<Longrightarrow>
   i \<le> i' \<and> i' < hi"
proof (induction cmp pivot hi arr i j rule: partition_loop.induct)
  case (1 cmp pivot hi arr i j)
  show ?case
  proof (cases "j < hi")
    case False
    with "1.prems" have "i' = i" by (subst (asm) partition_loop.simps) simp
    with False "1.prems" show ?thesis by simp
  next
    case True
    from "1.prems"(1) True obtain x where x: "vec_at arr j = Some x"
      by (subst (asm) partition_loop.simps) (auto split: option.splits)
    show ?thesis
    proof (cases "cmp x pivot")
      case c: True
      from "1.prems"(1) True x c obtain arr1 where s: "swap_int arr (i + 1) j = Some arr1"
        and r: "partition_loop cmp pivot hi arr1 (i + 1) (j + 1) = Some (arr', i')"
        by (subst (asm) partition_loop.simps) (auto split: option.splits)
      from "1.IH"(1) [OF True x c s r] "1.prems"(2) True show ?thesis by simp
    next
      case c: False
      from "1.prems"(1) True x c
      have r: "partition_loop cmp pivot hi arr i (j + 1) = Some (arr', i')"
        by (subst (asm) partition_loop.simps) simp
      from "1.IH"(2) [OF True x c r] "1.prems"(2) True show ?thesis by simp
    qed
  qed
qed

lemma detail_partition_bounds:
  assumes "detail_partition cmp arr lo hi = Some (arr', p)" and "lo \<le> hi"
  shows "lo \<le> p \<and> p \<le> hi"
proof -
  from assms(1) obtain pivot arr1 i where
    "partition_loop cmp pivot hi arr (lo - 1) lo = Some (arr1, i)" and "p = i + 1"
    by (auto simp: detail_partition_def split: option.splits)
  with partition_loop_bounds [of cmp pivot hi arr "lo - 1" lo arr1 i] assms(2)
  show ?thesis by simp
qed

function detail_quickSort ::
  "('a \<Rightarrow> 'a \<Rightarrow> bool) \<Rightarrow> 'a list \<Rightarrow> int \<Rightarrow> int \<Rightarrow> 'a list option"
where
  "detail_quickSort cmp arr lo hi =
     (if lo < hi
      then (case detail_partition cmp arr lo hi of None \<Rightarrow> None
            | Some (arr1, p) \<Rightarrow>
                (case detail_quickSort cmp arr1 lo (p - 1) of None \<Rightarrow> None
                 | Some arr2 \<Rightarrow> detail_quickSort cmp arr2 (p + 1) hi))
      else Some arr)"
  by pat_completeness auto
termination
proof (relation "measure (\<lambda>(cmp, arr, lo, hi). nat (hi - lo + 1))", goal_cases)
  case 1
  show ?case by simp
next
  case (2 cmp arr lo hi x arr1 p)
  then have "lo \<le> p \<and> p \<le> hi" using detail_partition_bounds [of cmp arr lo hi arr1 p] by simp
  with 2 show ?case by simp
next
  case (3 cmp arr lo hi x arr1 p arr2)
  then have "lo \<le> p \<and> p \<le> hi" using detail_partition_bounds [of cmp arr lo hi arr1 p] by simp
  with 3 show ?case by simp
qed

declare detail_quickSort.simps [simp del]

definition quickSort :: "('a \<Rightarrow> 'a \<Rightarrow> bool) \<Rightarrow> 'a list \<Rightarrow> 'a list option" where
  "quickSort cmp arr =
     (if length arr > 1
      then detail_quickSort cmp arr 0 (static_cast_int (length arr) - 1)
      else Some arr)"

subsection \<open>heapSort\<close>

definition int_range :: "int \<Rightarrow> bool" where
  "int_range x = (- (2 ^ 31) \<le> x \<and> x < 2 ^ 31)"

text \<open>The division of C++ truncates towards zero.\<close>

definition cpp_div :: "int \<Rightarrow> int \<Rightarrow> int" where
  "cpp_div a b = sgn a * sgn b * (\<bar>a\<bar> div \<bar>b\<bar>)"

text \<open>\<open>if (child < n && comp(arr[largest], arr[child])) largest = child\<close>: the new value of
  \<open>largest\<close>.\<close>

definition pick_larger ::
  "('a \<Rightarrow> 'a \<Rightarrow> bool) \<Rightarrow> 'a list \<Rightarrow> int \<Rightarrow> int \<Rightarrow> int \<Rightarrow> int option"
where
  "pick_larger cmp arr n largest child =
     (if child < n
      then (case vec_at arr largest of None \<Rightarrow> None
            | Some a \<Rightarrow>
                (case vec_at arr child of None \<Rightarrow> None
                 | Some b \<Rightarrow> Some (if cmp a b then child else largest)))
      else Some largest)"

lemma pick_larger_cases:
  "pick_larger cmp arr n largest child = Some l \<Longrightarrow>
   l = largest \<or> (l = child \<and> child < n \<and> 0 \<le> largest)"
  by (auto simp: pick_larger_def vec_at_def split: if_splits option.splits)

function heapify :: "('a \<Rightarrow> 'a \<Rightarrow> bool) \<Rightarrow> 'a list \<Rightarrow> int \<Rightarrow> int \<Rightarrow> 'a list option" where
  "heapify cmp arr n i =
     (if int_range (2 * i + 1) \<and> int_range (2 * i + 2)
      then (case pick_larger cmp arr n i (2 * i + 1) of None \<Rightarrow> None
            | Some largest1 \<Rightarrow>
                (case pick_larger cmp arr n largest1 (2 * i + 2) of None \<Rightarrow> None
                 | Some largest \<Rightarrow>
                     if largest \<noteq> i
                     then (case swap_int arr i largest of None \<Rightarrow> None
                           | Some arr' \<Rightarrow> heapify cmp arr' n largest)
                     else Some arr))
      else None)"
  by pat_completeness auto
termination
proof (relation "measure (\<lambda>(cmp, arr, n, i). nat (n - i))", goal_cases)
  case 1
  show ?case by simp
next
  case (2 cmp arr n i largest1 largest arr')
  from 2(5) have i0: "0 \<le> i" by (simp add: swap_int_def split: if_splits)
  from pick_larger_cases [OF 2(2)] pick_larger_cases [OF 2(3)] 2(4) i0
  have "i < largest \<and> largest < n" by auto
  then show ?case by simp
qed

declare heapify.simps [simp del]

text \<open>The loop \<open>for (int i = n / 2 - 1; i >= 0; --i)\<close> that builds the heap, from \<open>i\<close> on.\<close>

function build_heap :: "('a \<Rightarrow> 'a \<Rightarrow> bool) \<Rightarrow> 'a list \<Rightarrow> int \<Rightarrow> int \<Rightarrow> 'a list option" where
  "build_heap cmp arr n i =
     (if i \<ge> 0
      then (case heapify cmp arr n i of None \<Rightarrow> None
            | Some arr' \<Rightarrow> build_heap cmp arr' n (i - 1))
      else Some arr)"
  by pat_completeness auto
termination
  by (relation "measure (\<lambda>(cmp, arr, n, i). nat (i + 1))") auto

text \<open>The loop \<open>for (int i = n - 1; i > 0; --i)\<close> that moves the root to the end.\<close>

function extract_all :: "('a \<Rightarrow> 'a \<Rightarrow> bool) \<Rightarrow> 'a list \<Rightarrow> int \<Rightarrow> 'a list option" where
  "extract_all cmp arr i =
     (if i > 0
      then (case swap_int arr 0 i of None \<Rightarrow> None
            | Some arr1 \<Rightarrow>
                (case heapify cmp arr1 i 0 of None \<Rightarrow> None
                 | Some arr2 \<Rightarrow> extract_all cmp arr2 (i - 1)))
      else Some arr)"
  by pat_completeness auto
termination
  by (relation "measure (\<lambda>(cmp, arr, i). nat i)") auto

declare build_heap.simps [simp del]

declare extract_all.simps [simp del]

definition heapSort :: "('a \<Rightarrow> 'a \<Rightarrow> bool) \<Rightarrow> 'a list \<Rightarrow> 'a list option" where
  "heapSort cmp arr =
     (let n = static_cast_int (length arr) in
      case build_heap cmp arr n (cpp_div n 2 - 1) of None \<Rightarrow> None
      | Some arr1 \<Rightarrow> extract_all cmp arr1 (n - 1))"

text \<open>
  The heap that \<open>heapSort\<close> keeps in the first \<open>n\<close> elements: a node \<open>k\<close> does not compare
  before either of its children \<open>2k + 1\<close> and \<open>2k + 2\<close>. \<open>heap_from\<close> asks this of the nodes
  from \<open>s\<close> on; \<open>heap_except\<close> leaves out node \<open>i\<close>, the one being sifted down, and asks
  instead that the parent of \<open>i\<close> does not compare before the children of \<open>i\<close>.
\<close>

definition heap_node :: "('a \<Rightarrow> 'a \<Rightarrow> bool) \<Rightarrow> 'a list \<Rightarrow> nat \<Rightarrow> nat \<Rightarrow> bool" where
  "heap_node cmp arr n k =
     ((2 * k + 1 < n \<longrightarrow> \<not> cmp (arr ! k) (arr ! (2 * k + 1))) \<and>
      (2 * k + 2 < n \<longrightarrow> \<not> cmp (arr ! k) (arr ! (2 * k + 2))))"

definition heap_from :: "('a \<Rightarrow> 'a \<Rightarrow> bool) \<Rightarrow> 'a list \<Rightarrow> nat \<Rightarrow> nat \<Rightarrow> bool" where
  "heap_from cmp arr n s = (\<forall>k. s \<le> k \<and> k < n \<longrightarrow> heap_node cmp arr n k)"

definition heap_except :: "('a \<Rightarrow> 'a \<Rightarrow> bool) \<Rightarrow> 'a list \<Rightarrow> nat \<Rightarrow> nat \<Rightarrow> nat \<Rightarrow> bool" where
  "heap_except cmp arr n s i =
     ((\<forall>k. s \<le> k \<and> k < n \<and> k \<noteq> i \<longrightarrow> heap_node cmp arr n k) \<and>
      (0 < i \<and> s \<le> (i - 1) div 2 \<longrightarrow>
         (2 * i + 1 < n \<longrightarrow> \<not> cmp (arr ! ((i - 1) div 2)) (arr ! (2 * i + 1))) \<and>
         (2 * i + 2 < n \<longrightarrow> \<not> cmp (arr ! ((i - 1) div 2)) (arr ! (2 * i + 2)))))"

section \<open>Properties of the linked list\<close>

subsection \<open>The free store and paths in it\<close>

lemma deref_None [simp]: "deref h None = None"
  by (simp add: deref_def)

lemma deref_update:
  "deref (h[a := x]) (Some b) = (if a = b \<and> a < length h then x else deref h (Some b))"
  by (simp add: deref_def)

lemma deref_append:
  "deref (h @ [x]) (Some b) = (if b = length h then x else deref h (Some b))"
  by (simp add: deref_def nth_append)

lemma deref_Some_less: "deref h (Some a) = Some c \<Longrightarrow> a < length h"
  by (simp add: deref_def split: if_splits)

lemma path_Cons:
  "path h p (a # as) q =
     (p = Some a \<and> (\<exists>c. deref h (Some a) = Some c \<and> path h (next c) as q))"
  by (cases "deref h (Some a)") auto

lemma path_append:
  "path h p (as @ bs) q = (\<exists>r. path h p as r \<and> path h r bs q)"
  by (induction as arbitrary: p) (auto split: option.splits)

lemma path_unique: "path h p as None \<Longrightarrow> path h p bs None \<Longrightarrow> as = bs"
proof (induction as arbitrary: p bs)
  case Nil
  then show ?case by (cases bs) auto
next
  case (Cons a as)
  then show ?case by (cases bs) (auto split: option.splits)
qed

lemma path_distinct: "path h p as None \<Longrightarrow> distinct as"
proof (induction as arbitrary: p)
  case Nil
  show ?case by simp
next
  case (Cons a as)
  from Cons.prems obtain c where c: "deref h (Some a) = Some c" and p: "p = Some a"
    and t: "path h (next c) as None" by (auto split: option.splits)
  have "a \<notin> set as"
  proof
    assume "a \<in> set as"
    then obtain bs cs where s: "as = bs @ a # cs" by (auto simp: in_set_conv_decomp)
    with t obtain r where "path h r (a # cs) None" by (auto simp: path_append)
    then have "path h (Some a) (a # cs) None" by auto
    moreover have "path h (Some a) (a # as) None" using c t by simp
    ultimately have "a # cs = a # as" by (rule path_unique)
    with s show False by simp
  qed
  with Cons.IH [OF t] show ?case by simp
qed

lemma path_less: "path h p as q \<Longrightarrow> a \<in> set as \<Longrightarrow> a < length h"
  by (induction as arbitrary: p) (auto split: option.splits dest: deref_Some_less)

lemma path_update:
  "a \<notin> set as \<Longrightarrow> path (h[a := x]) p as q = path h p as q"
proof (induction as arbitrary: p)
  case Nil
  show ?case by simp
next
  case (Cons b as)
  then have "a \<noteq> b" and "a \<notin> set as" by auto
  with Cons.IH show ?case
    by (simp only: path_Cons deref_update) simp
qed

lemma path_extend: "path h p as q \<Longrightarrow> path (h @ [x]) p as q"
proof (induction as arbitrary: p)
  case Nil
  then show ?case by simp
next
  case (Cons a as)
  then obtain c where c: "deref h (Some a) = Some c" and p: "p = Some a"
    and t: "path h (next c) as q" by (auto split: option.splits)
  from c have "a \<noteq> length h" by (auto dest: deref_Some_less)
  with c p Cons.IH [OF t] t show ?case by (simp add: deref_append)
qed

lemma chain_path:
  "chain h p n = Some ns \<Longrightarrow>
   path h p (map fst ns) None \<and> length ns = n \<and> map snd ns = map (node_value h) (map fst ns)"
proof (induction n arbitrary: p ns)
  case 0
  then show ?case by (simp split: if_splits)
next
  case (Suc n)
  from Suc.prems obtain a c ms where p: "p = Some a" and c: "deref h (Some a) = Some c"
    and m: "chain h (next c) n = Some ms" and ns: "ns = (a, data c) # ms"
    by (auto split: option.splits)
  from Suc.IH [OF m] p c ns show ?case
    by (simp add: node_value_def)
qed

lemma path_chain:
  "path h p as None \<Longrightarrow> chain h p (length as) = Some (map (\<lambda>a. (a, node_value h a)) as)"
  by (induction as arbitrary: p) (auto simp: node_value_def split: option.splits)

lemma inv_iff: "LinkedList_inv h l = (\<exists>as. list_at h l as)"
proof
  assume "LinkedList_inv h l"
  then obtain ns where c: "chain h (ll_head l) (ll_size l) = Some ns"
    and t: "ll_tail l = (if ns = [] then None else Some (fst (last ns)))"
    by (auto simp: LinkedList_inv_def split: option.splits)
  from chain_path [OF c] t have "list_at h l (map fst ns)"
    by (auto simp: list_at_def last_map)
  then show "\<exists>as. list_at h l as" ..
next
  assume "\<exists>as. list_at h l as"
  then obtain as where a: "list_at h l as" ..
  then have "chain h (ll_head l) (ll_size l) = Some (map (\<lambda>a. (a, node_value h a)) as)"
    by (simp add: list_at_def path_chain)
  with a show "LinkedList_inv h l"
    by (auto simp: LinkedList_inv_def list_at_def last_map)
qed

lemma elements_eq: "list_at h l as \<Longrightarrow> elements h l = map (node_value h) as"
  by (simp add: elements_def list_at_def path_chain comp_def)

declare path.simps(2) [simp del]

declare path_Cons [simp]

subsection \<open>Pushing at either end\<close>

lemma node_value_set_next:
  "deref h (Some a) = Some n \<Longrightarrow>
   node_value (h[a := Some (n\<lparr>next := q\<rparr>)]) b = node_value h b"
  by (auto simp add: node_value_def deref_update)

lemma node_value_update: "a \<noteq> b \<Longrightarrow> node_value (h[a := x]) b = node_value h b"
  by (simp add: node_value_def deref_update)

lemma node_value_append: "b < length h \<Longrightarrow> node_value (h @ [x]) b = node_value h b"
  by (simp add: node_value_def deref_append)

lemma map_node_value_update:
  "a \<notin> set as \<Longrightarrow> map (node_value (h[a := x])) as = map (node_value h) as"
  by (induction as) (auto simp: node_value_update)

lemma map_node_value_append:
  "\<forall>a \<in> set as. a < length h \<Longrightarrow> map (node_value (h @ [x])) as = map (node_value h) as"
  by (induction as) (auto simp: node_value_append)

lemma map_node_value_set_next:
  "deref h (Some a) = Some n \<Longrightarrow>
   map (node_value (h[a := Some (n\<lparr>next := q\<rparr>)])) as = map (node_value h) as"
  by (simp add: node_value_set_next)

lemma set_next_Some:
  "deref h (Some a) = Some n \<Longrightarrow> set_next h (Some a) q = Some (h[a := Some (n\<lparr>next := q\<rparr>)])"
  by (simp add: set_next_def)

lemma delete_Node_Some:
  "deref h (Some a) = Some n \<Longrightarrow> delete_Node h (Some a) = Some (h[a := None])"
  by (simp add: delete_Node_def)

lemma path_last_deref:
  "path h p (as @ [t]) None \<Longrightarrow> \<exists>c. deref h (Some t) = Some c \<and> next c = None"
  by (auto simp: path_append split: option.splits)

lemma push_front_list_at:
  assumes "list_at h l as"
  shows "\<exists>h' l'. push_front h l v = Some (Inr (), h', l') \<and> list_at h' l' (length h # as) \<and>
           map (node_value h') (length h # as) = v # map (node_value h) as"
proof -
  let ?m = "length h"
  let ?h1 = "h @ [Some \<lparr>data = v, next = None\<rparr>]"
  let ?h2 = "h @ [Some \<lparr>data = v, next = ll_head l\<rparr>]"
  let ?l' = "l\<lparr>ll_head := Some ?m,
                ll_tail := (if ll_tail l = None then Some ?m else ll_tail l),
                ll_size := ll_size l + 1\<rparr>"
  from assms have p: "path h (ll_head l) as None" and s: "ll_size l = length as"
    and t: "ll_tail l = (if as = [] then None else Some (last as))"
    by (simp_all add: list_at_def)
  have less: "\<forall>a \<in> set as. a < ?m" using p by (auto dest: path_less)
  then have nin: "?m \<notin> set as" by auto
  have d1: "deref ?h1 (Some ?m) = Some \<lparr>data = v, next = None\<rparr>"
    by (simp add: deref_append)
  have r: "push_front h l v = Some (Inr (), ?h2, ?l')"
    by (simp add: push_front_def new_Node_def set_next_Some [OF d1] Let_def)
  have p2: "path ?h2 (ll_head l) as None" using p by (rule path_extend)
  have d2: "deref ?h2 (Some ?m) = Some \<lparr>data = v, next = ll_head l\<rparr>"
    by (simp add: deref_append)
  have "path ?h2 (Some ?m) (?m # as) None"
    using p2 d2 by (simp only: path_Cons) simp
  then have la: "list_at ?h2 ?l' (?m # as)" using s t by (simp add: list_at_def)
  have "map (node_value ?h2) as = map (node_value h) as"
    using less by (rule map_node_value_append)
  then have "map (node_value ?h2) (?m # as) = v # map (node_value h) as"
    using d2 by (simp add: node_value_def)
  with r la show ?thesis by (intro exI conjI) (assumption+)
qed

lemma push_back_list_at:
  assumes "list_at h l as"
  shows "\<exists>h' l'. push_back h l v = Some (Inr (), h', l') \<and> list_at h' l' (as @ [length h]) \<and>
           map (node_value h') (as @ [length h]) = map (node_value h) as @ [v]"
proof -
  let ?m = "length h"
  let ?new = "\<lparr>data = v, next = None\<rparr>"
  let ?h1 = "h @ [Some ?new]"
  from assms have p: "path h (ll_head l) as None" and s: "ll_size l = length as"
    and t: "ll_tail l = (if as = [] then None else Some (last as))"
    by (simp_all add: list_at_def)
  have less: "\<forall>a \<in> set as. a < ?m" using p by (auto dest: path_less)
  then have nin: "?m \<notin> set as" by auto
  have d1: "deref ?h1 (Some ?m) = Some ?new" by (simp add: deref_append)
  have v1: "map (node_value ?h1) as = map (node_value h) as"
    using less by (rule map_node_value_append)
  have vm: "node_value ?h1 ?m = v" using d1 by (simp add: node_value_def)
  show ?thesis
  proof (cases "as = []")
    case True
    let ?l' = "l\<lparr>ll_head := Some ?m, ll_tail := Some ?m, ll_size := ll_size l + 1\<rparr>"
    from True t have r: "push_back h l v = Some (Inr (), ?h1, ?l')"
      by (simp add: push_back_def new_Node_def)
    have "path ?h1 (Some ?m) [?m] None" using d1 by (simp only: path_Cons) simp
    then have "list_at ?h1 ?l' (as @ [?m])" using True s by (simp add: list_at_def)
    then have "list_at ?h1 ?l' (as @ [?m]) \<and>
        map (node_value ?h1) (as @ [?m]) = map (node_value h) as @ [v]"
      using vm True by simp
    with r show ?thesis by (intro exI conjI) (erule conjunct1 conjunct2 | assumption)+
  next
    case False
    then obtain bs e where as: "as = bs @ [e]" by (metis rev_exhaust)
    from p as obtain c where c: "deref h (Some e) = Some c" and cn: "next c = None"
      using path_last_deref by blast
    have el: "e < ?m" using less as by simp
    then have c1: "deref ?h1 (Some e) = Some c" using c by (simp add: deref_append)
    let ?h2 = "?h1[e := Some (c\<lparr>next := Some ?m\<rparr>)]"
    let ?l' = "l\<lparr>ll_tail := Some ?m, ll_size := ll_size l + 1\<rparr>"
    from False t as have r: "push_back h l v = Some (Inr (), ?h2, ?l')"
      by (simp add: push_back_def new_Node_def set_next_Some [OF c1])
    have dist: "distinct as" using p by (rule path_distinct)
    then have eb: "e \<notin> set bs" using as by simp
    from p as have pb: "path h (ll_head l) bs (Some e)"
      by (auto simp: path_append path_Cons)
    then have "path ?h1 (ll_head l) bs (Some e)" by (rule path_extend)
    then have pb2: "path ?h2 (ll_head l) bs (Some e)" using eb by (simp add: path_update)
    have de: "deref ?h2 (Some e) = Some (c\<lparr>next := Some ?m\<rparr>)"
      using el by (simp add: deref_update)
    have dm: "deref ?h2 (Some ?m) = Some ?new"
      using el d1 by (simp add: deref_update)
    have "path ?h2 (Some e) [e, ?m] None"
      using de dm by (simp only: path_Cons) simp
    with pb2 have "path ?h2 (ll_head l) (bs @ [e, ?m]) None"
      by (simp only: path_append) blast
    then have la: "list_at ?h2 ?l' (as @ [?m])" using as s by (simp add: list_at_def)
    have "map (node_value ?h2) (as @ [?m]) = map (node_value ?h1) (as @ [?m])"
      using c1 by (rule map_node_value_set_next)
    with v1 vm have "map (node_value ?h2) (as @ [?m]) = map (node_value h) as @ [v]"
      by simp
    with r la show ?thesis by (intro exI conjI) (assumption+)
  qed
qed

subsection \<open>Popping at either end\<close>

lemma pop_front_list_at:
  assumes "list_at h l (a # as)"
  shows "\<exists>h' l'. pop_front h l = Some (Inr (), h', l') \<and> list_at h' l' as \<and>
           map (node_value h') as = map (node_value h) as"
proof -
  from assms have p: "path h (ll_head l) (a # as) None" and s: "ll_size l = Suc (length as)"
    and t: "ll_tail l = Some (last (a # as))"
    by (simp_all add: list_at_def)
  from p obtain c where hd: "ll_head l = Some a" and c: "deref h (Some a) = Some c"
    and pt: "path h (next c) as None" by (auto simp only: path_Cons)
  have "distinct (a # as)" using p by (rule path_distinct)
  then have nin: "a \<notin> set as" by simp
  let ?h1 = "h[a := None]"
  let ?l' = "l\<lparr>ll_head := next c, ll_tail := (if as = [] then None else ll_tail l),
                ll_size := length as\<rparr>"
  have r: "pop_front h l = Some (Inr (), ?h1, ?l')"
    using hd c s by (simp add: pop_front_def ll_empty_def delete_Node_Some [OF c] Let_def)
  have "path ?h1 (next c) as None" using pt nin by (simp add: path_update)
  then have la: "list_at ?h1 ?l' as" using t by (simp add: list_at_def)
  have "map (node_value ?h1) as = map (node_value h) as"
    using nin by (rule map_node_value_update)
  with r la show ?thesis by (intro exI conjI) (assumption+)
qed

lemma pop_back_loop_finds:
  "path h p (bs @ [s, t]) None \<Longrightarrow> pop_back_loop h (Some t) p = Some (Some s)"
proof (induction bs arbitrary: p)
  case Nil
  then obtain c where "p = Some s" and "deref h (Some s) = Some c" and "next c = Some t"
    by (auto simp only: append_Nil path_Cons)
  then show ?case by (subst pop_back_loop.simps) simp
next
  case (Cons b bs)
  from Cons.prems obtain c where p: "p = Some b" and c: "deref h (Some b) = Some c"
    and pt: "path h (next c) (bs @ [s, t]) None"
    by (auto simp only: append_Cons path_Cons)
  have "distinct (b # bs @ [s, t])" using Cons.prems path_distinct by fastforce
  then have d: "t \<notin> set bs" "t \<noteq> s" by auto
  from pt have "next c = Some (hd (bs @ [s, t]))"
    by (cases bs) (auto simp only: append_Nil append_Cons path_Cons list.sel)
  with d have "next c \<noteq> Some t" by (cases bs) auto
  with p c Cons.IH [OF pt] show ?case by (subst pop_back_loop.simps) simp
qed

lemma pop_back_list_at:
  assumes "list_at h l (as @ [t])"
  shows "\<exists>h' l'. pop_back h l = Some (Inr (), h', l') \<and> list_at h' l' as \<and>
           map (node_value h') as = map (node_value h) as"
proof -
  from assms have p: "path h (ll_head l) (as @ [t]) None"
    and s: "ll_size l = Suc (length as)" and tl: "ll_tail l = Some t"
    by (simp_all add: list_at_def)
  have dist: "distinct (as @ [t])" using p by (rule path_distinct)
  then have nin: "t \<notin> set as" by simp
  from p obtain ct where ct: "deref h (Some t) = Some ct"
    using path_last_deref by blast
  from p have pa: "path h (ll_head l) as (Some t)"
    by (auto simp: path_append split: option.splits)
  show ?thesis
  proof (cases "as = []")
    case True
    let ?h1 = "h[t := None]"
    let ?l' = "l\<lparr>ll_head := None, ll_tail := None, ll_size := 0\<rparr>"
    from True pa have hd: "ll_head l = Some t" by simp
    have r: "pop_back h l = Some (Inr (), ?h1, ?l')"
      using True s hd by (simp add: pop_back_def ll_empty_def delete_Node_Some [OF ct])
    have "list_at ?h1 ?l' as \<and> map (node_value ?h1) as = map (node_value h) as"
      using True by (simp add: list_at_def)
    with r show ?thesis by (intro exI conjI) (erule conjunct1 conjunct2 | assumption)+
  next
    case False
    then obtain bs e where as: "as = bs @ [e]" by (metis rev_exhaust)
    have et: "e \<noteq> t" and eb: "e \<notin> set bs" using dist as by auto
    from p as have "path h (ll_head l) (bs @ [e, t]) None" by simp
    then have loop: "pop_back_loop h (Some t) (ll_head l) = Some (Some e)"
      by (rule pop_back_loop_finds)
    from pa as obtain ce where ce: "deref h (Some e) = Some ce"
      using path_last_deref [of h "ll_head l" bs e] 
      by (auto simp: path_append split: option.splits)
    from pa as have pb: "path h (ll_head l) bs (Some e)"
      by (auto simp: path_append split: option.splits)
    let ?h1 = "h[t := None]"
    let ?h2 = "?h1[e := Some (ce\<lparr>next := None\<rparr>)]"
    let ?l' = "l\<lparr>ll_tail := Some e, ll_size := length as\<rparr>"
    have ce1: "deref ?h1 (Some e) = Some ce" using ce et by (simp add: deref_update)
    have sz: "ll_size l \<noteq> 0" "ll_size l \<noteq> 1" using s as by simp_all
    have r: "pop_back h l = Some (Inr (), ?h2, ?l')"
      using sz tl loop s
      by (simp add: pop_back_def ll_empty_def delete_Node_Some [OF ct] set_next_Some [OF ce1])
    have tb: "t \<notin> set bs" using nin as by simp
    have "path ?h2 (ll_head l) bs (Some e)" using pb tb eb by (simp add: path_update)
    moreover have "e < length h" using ce by (rule deref_Some_less)
    then have "deref ?h2 (Some e) = Some (ce\<lparr>next := None\<rparr>)"
      by (simp add: deref_update)
    then have "path ?h2 (Some e) [e] None" by (simp only: path_Cons) simp
    ultimately have "path ?h2 (ll_head l) (bs @ [e]) None"
      by (simp only: path_append) blast
    then have la: "list_at ?h2 ?l' as" using as by (simp add: list_at_def)
    have "map (node_value ?h2) as = map (node_value ?h1) as"
      using ce1 by (rule map_node_value_set_next)
    also have "\<dots> = map (node_value h) as" using nin by (rule map_node_value_update)
    finally have "map (node_value ?h2) as = map (node_value h) as" .
    with r la show ?thesis by (intro exI conjI) (assumption+)
  qed
qed

subsection \<open>Element access\<close>

lemma walk_path:
  "path h p as q \<Longrightarrow> i + length as = n \<Longrightarrow> walk h p i n = Some q"
proof (induction as arbitrary: p i)
  case Nil
  then show ?case by (subst walk.simps) simp
next
  case (Cons a as)
  from Cons.prems obtain c where p: "p = Some a" and c: "deref h (Some a) = Some c"
    and pt: "path h (next c) as q" by auto
  from Cons.prems have "Suc i + length as = n" by simp
  with pt have "walk h (next c) (Suc i) n = Some q" by (rule Cons.IH)
  moreover have "i < n" using Cons.prems by simp
  ultimately show ?case using p c by (subst walk.simps) simp
qed

lemma path_split:
  "path h p as None \<Longrightarrow> i < length as \<Longrightarrow>
   path h p (take i as) (Some (as ! i)) \<and> path h (Some (as ! i)) (drop i as) None"
proof -
  assume p: "path h p as None" and i: "i < length as"
  have "as = take i as @ drop i as" by simp
  with p obtain r where 1: "path h p (take i as) r" and 2: "path h r (drop i as) None"
    by (metis path_append)
  from i have "drop i as = as ! i # drop (Suc i) as" by (simp add: Cons_nth_drop_Suc)
  with 2 have "r = Some (as ! i)" by simp
  with 1 2 show ?thesis by simp
qed

lemma path_deref:
  "path h p as q \<Longrightarrow> a \<in> set as \<Longrightarrow> \<exists>c. deref h (Some a) = Some c"
  by (induction as arbitrary: p) auto

lemma at_list_at:
  assumes "list_at h l as" and "i < length as"
  shows "at h l i = Some (Inr (node_value h (as ! i)))"
proof -
  from assms have p: "path h (ll_head l) as None" and s: "ll_size l = length as"
    by (simp_all add: list_at_def)
  from path_split [OF p assms(2)] have "path h (ll_head l) (take i as) (Some (as ! i))" ..
  then have w: "walk h (ll_head l) 0 i = Some (Some (as ! i))"
    by (rule walk_path) (simp add: assms(2) less_imp_le)
  from p assms(2) obtain c where "deref h (Some (as ! i)) = Some c"
    using path_deref nth_mem by blast
  with w s assms(2) show ?thesis by (simp add: at_def node_value_def)
qed

lemma front_list_at:
  assumes "list_at h l (a # as)"
  shows "ll_front h l = Some (Inr (node_value h a))"
proof -
  from assms obtain c where "ll_head l = Some a" and "deref h (Some a) = Some c"
    and "ll_size l \<noteq> 0" by (auto simp: list_at_def)
  then show ?thesis by (simp add: ll_front_def ll_empty_def node_value_def)
qed

lemma back_list_at:
  assumes "list_at h l (as @ [t])"
  shows "ll_back h l = Some (Inr (node_value h t))"
proof -
  from assms have p: "path h (ll_head l) (as @ [t]) None" and "ll_tail l = Some t"
    and "ll_size l \<noteq> 0" by (simp_all add: list_at_def)
  moreover from p obtain c where "deref h (Some t) = Some c"
    using path_last_deref by blast
  ultimately show ?thesis by (simp add: ll_back_def ll_empty_def node_value_def)
qed

subsection \<open>Insertion in the middle\<close>

lemma insert_list_at:
  assumes "list_at h l as" and i0: "0 < i" and il: "i < length as"
  shows "\<exists>h' l'. ll_insert h l i v = Some (Inr (), h', l') \<and>
           list_at h' l' (take i as @ length h # drop i as) \<and>
           map (node_value h') (take i as @ length h # drop i as) =
             take i (map (node_value h) as) @ v # drop i (map (node_value h) as)"
proof -
  let ?m = "length h"
  from assms have p: "path h (ll_head l) as None" and s: "ll_size l = length as"
    and t: "ll_tail l = (if as = [] then None else Some (last as))"
    by (simp_all add: list_at_def)
  have less: "\<forall>a \<in> set as. a < ?m" using p by (auto dest: path_less)
  have dist: "distinct as" using p by (rule path_distinct)
  obtain j where j: "i = Suc j" using i0 by (cases i) auto
  let ?bs = "take j as" and ?e = "as ! j" and ?cs = "drop i as"
  have jl: "j < length as" using il j by simp
  have as: "as = ?bs @ ?e # ?cs" using jl j by (simp add: id_take_nth_drop)
  have tk: "take i as = ?bs @ [?e]" using jl j by (simp add: take_Suc_conv_app_nth)
  have cs: "?cs \<noteq> []" using il by simp
  from path_split [OF p jl] have pb: "path h (ll_head l) ?bs (Some ?e)" ..
  then have w: "walk h (ll_head l) 0 (i - 1) = Some (Some ?e)"
    by (rule walk_path) (simp add: j jl less_imp_le)
  from p as obtain c where c: "deref h (Some ?e) = Some c"
    and pc: "path h (next c) ?cs None"
    by (metis path_append path_Cons)
  have el: "?e < ?m" using less jl by simp
  let ?h1 = "h @ [Some \<lparr>data = v, next = None\<rparr>]"
  let ?h2 = "h @ [Some \<lparr>data = v, next = next c\<rparr>]"
  let ?h3 = "?h2[?e := Some (c\<lparr>next := Some ?m\<rparr>)]"
  let ?l' = "l\<lparr>ll_size := ll_size l + 1\<rparr>"
  have c1: "deref ?h1 (Some ?e) = Some c" using c el by (simp add: deref_append)
  have d1: "deref ?h1 (Some ?m) = Some \<lparr>data = v, next = None\<rparr>"
    by (simp add: deref_append)
  have h2: "?h1[?m := Some (\<lparr>data = v, next = None\<rparr>\<lparr>next := next c\<rparr>)] = ?h2" by simp
  have c2: "deref ?h2 (Some ?e) = Some c" using c el by (simp add: deref_append)
  have r: "ll_insert h l i v = Some (Inr (), ?h3, ?l')"
    using i0 il s w c1
    by (simp add: ll_insert_def new_Node_def set_next_Some [OF d1] h2 set_next_Some [OF c2])
  have eb: "?e \<notin> set ?bs" and ec: "?e \<notin> set ?cs"
    using dist as by (metis distinct_append distinct.simps(2) not_distinct_conv_prefix,
      metis distinct_append distinct.simps(2))
  have mc: "?m \<notin> set ?cs" using less by (auto dest: in_set_dropD)
  have "path ?h2 (ll_head l) ?bs (Some ?e)" using pb by (rule path_extend)
  then have p1: "path ?h3 (ll_head l) ?bs (Some ?e)" using eb by (simp add: path_update)
  have "path ?h2 (next c) ?cs None" using pc by (rule path_extend)
  then have p3: "path ?h3 (next c) ?cs None" using ec by (simp add: path_update)
  have de: "deref ?h3 (Some ?e) = Some (c\<lparr>next := Some ?m\<rparr>)"
    using el by (simp add: deref_update)
  have dm: "deref ?h3 (Some ?m) = Some \<lparr>data = v, next = next c\<rparr>"
    using el by (simp add: deref_update deref_append)
  have "path ?h3 (Some ?e) (?e # ?m # ?cs) None" using de dm p3 by simp
  with p1 have "path ?h3 (ll_head l) (?bs @ ?e # ?m # ?cs) None"
    by (simp only: path_append) blast
  then have pp: "path ?h3 (ll_head l) (take i as @ ?m # ?cs) None" by (simp add: tk)
  have "last (take i as @ ?m # ?cs) = last as" using cs il by (simp add: last_drop)
  with pp s t have la: "list_at ?h3 ?l' (take i as @ ?m # ?cs)"
    using il by (auto simp: list_at_def)
  have "map (node_value ?h3) as = map (node_value ?h2) as"
    using c2 by (rule map_node_value_set_next)
  also have "\<dots> = map (node_value h) as" using less by (rule map_node_value_append)
  finally have va: "map (node_value ?h3) as = map (node_value h) as" .
  have vm: "node_value ?h3 ?m = v" using dm by (simp add: node_value_def)
  have "map (node_value ?h3) (take i as @ ?m # ?cs) =
          take i (map (node_value ?h3) as) @ v # drop i (map (node_value ?h3) as)"
    using vm by (simp add: take_map drop_map)
  then have "map (node_value ?h3) (take i as @ ?m # ?cs) =
          take i (map (node_value h) as) @ v # drop i (map (node_value h) as)"
    by (simp only: va)
  with r la show ?thesis by (intro exI conjI) (assumption+)
qed

subsection \<open>Erasing and reversing\<close>

lemma erase_list_at:
  assumes "list_at h l as" and i0: "0 < i" and il: "i < length as"
  shows "\<exists>h' l'. erase h l i = Some (Inr (), h', l') \<and>
           list_at h' l' (take i as @ drop (Suc i) as) \<and>
           map (node_value h') (take i as @ drop (Suc i) as) =
             take i (map (node_value h) as) @ drop (Suc i) (map (node_value h) as)"
proof -
  from assms have p: "path h (ll_head l) as None" and s: "ll_size l = length as"
    and t: "ll_tail l = Some (last as)"
    by (auto simp: list_at_def)
  have dist: "distinct as" using p by (rule path_distinct)
  obtain j where j: "i = Suc j" using i0 by (cases i) auto
  let ?bs = "take j as" and ?e = "as ! j" and ?t = "as ! i" and ?cs = "drop (Suc i) as"
  have jl: "j < length as" using il j by simp
  have as: "as = ?bs @ ?e # ?t # ?cs"
    using jl il j by (metis Cons_nth_drop_Suc id_take_nth_drop)
  have tk: "take i as = ?bs @ [?e]" using jl j by (simp add: take_Suc_conv_app_nth)
  from path_split [OF p jl] have pb: "path h (ll_head l) ?bs (Some ?e)" ..
  then have w: "walk h (ll_head l) 0 (i - 1) = Some (Some ?e)"
    by (rule walk_path) (simp add: j jl less_imp_le)
  from p as obtain r where "path h r (?e # ?t # ?cs) None" by (metis path_append)
  then obtain c d where c: "deref h (Some ?e) = Some c" and cn: "next c = Some ?t"
    and d: "deref h (Some ?t) = Some d" and pc: "path h (next d) ?cs None"
    by auto
  from dist as have d1: "distinct (?bs @ ?e # ?t # ?cs)" by simp
  then have et: "?e \<noteq> ?t" and eb: "?e \<notin> set ?bs" and ec: "?e \<notin> set ?cs"
    and tb: "?t \<notin> set ?bs" and tc: "?t \<notin> set ?cs" by auto
  have el: "?e < length h" using c by (rule deref_Some_less)
  let ?h1 = "h[?e := Some (c\<lparr>next := next d\<rparr>)]"
  let ?h2 = "?h1[?t := None]"
  let ?l' = "l\<lparr>ll_tail := (if ?cs = [] then Some ?e else ll_tail l),
                ll_size := ll_size l - 1\<rparr>"
  have lt: "(Some ?t = ll_tail l) = (?cs = [])"
  proof (cases "?cs = []")
    case True
    with as have "last as = ?t" by (metis last_ConsL last_ConsR last_appendR list.distinct(1))
    with t True show ?thesis by simp
  next
    case False
    with as have "last as = last ?cs"
      by (metis last_ConsR last_appendR list.distinct(1))
    with False have "last as \<in> set ?cs" by (metis last_in_set)
    with tc t False show ?thesis by auto
  qed
  have dt1: "deref ?h1 (Some ?t) = Some d" using d et by (simp add: deref_update)
  have r: "erase h l i = Some (Inr (), ?h2, ?l')"
    using i0 il s w c cn d lt
    by (simp add: erase_def set_next_Some [OF c] delete_Node_Some [OF dt1] Let_def)
  have p1: "path ?h2 (ll_head l) ?bs (Some ?e)"
    using pb eb tb by (simp add: path_update)
  have p3: "path ?h2 (next d) ?cs None" using pc ec tc by (simp add: path_update)
  have de: "deref ?h2 (Some ?e) = Some (c\<lparr>next := next d\<rparr>)"
    using el et by (simp add: deref_update)
  have "path ?h2 (Some ?e) (?e # ?cs) None" using de p3 by simp
  with p1 have "path ?h2 (ll_head l) (?bs @ ?e # ?cs) None"
    by (simp only: path_append) blast
  then have pp: "path ?h2 (ll_head l) (take i as @ ?cs) None" by (simp add: tk)
  have ne: "take i as @ ?cs \<noteq> []" using tk by simp
  have "last (take i as @ ?cs) = (if ?cs = [] then ?e else last as)"
    using il tk by (simp add: last_drop)
  with pp s t ne have la: "list_at ?h2 ?l' (take i as @ ?cs)"
    using il by (auto simp: list_at_def)
  have tn: "?t \<notin> set (take i as @ ?cs)" using tk tb tc et by auto
  have "map (node_value ?h2) (take i as @ ?cs) = map (node_value ?h1) (take i as @ ?cs)"
    using tn by (rule map_node_value_update)
  also have "\<dots> = map (node_value h) (take i as @ ?cs)"
    using c by (rule map_node_value_set_next)
  finally have "map (node_value ?h2) (take i as @ ?cs) =
      take i (map (node_value h) as) @ drop (Suc i) (map (node_value h) as)"
    by (simp add: take_map drop_map)
  with r la show ?thesis by (intro exI conjI) (assumption+)
qed

lemma reverse_loop_path:
  "path h cur as None \<Longrightarrow> path h prev ps None \<Longrightarrow> set as \<inter> set ps = {} \<Longrightarrow>
   \<exists>h'. reverse_loop h prev cur = Some (h', (if as = [] then prev else Some (last as))) \<and>
        path h' (if as = [] then prev else Some (last as)) (rev as @ ps) None \<and>
        (\<forall>a. node_value h' a = node_value h a)"
proof (induction as arbitrary: h cur prev ps)
  case Nil
  then show ?case by (subst reverse_loop.simps) simp
next
  case (Cons a as)
  from Cons.prems(1) obtain c where cur: "cur = Some a" and c: "deref h (Some a) = Some c"
    and pt: "path h (next c) as None" by auto
  have "distinct (a # as)" using Cons.prems(1) by (rule path_distinct)
  then have na: "a \<notin> set as" by simp
  have np: "a \<notin> set ps" using Cons.prems(3) by simp
  let ?h1 = "h[a := Some (c\<lparr>next := prev\<rparr>)]"
  have al: "a < length h" using c by (rule deref_Some_less)
  have p1: "path ?h1 (next c) as None" using pt na by (simp add: path_update)
  have "path ?h1 prev ps None" using Cons.prems(2) np by (simp add: path_update)
  moreover have "deref ?h1 (Some a) = Some (c\<lparr>next := prev\<rparr>)"
    using al by (simp add: deref_update)
  ultimately have p2: "path ?h1 (Some a) (a # ps) None" by simp
  have dj: "set as \<inter> set (a # ps) = {}" using Cons.prems(3) na by auto
  from Cons.IH [OF p1 p2 dj] obtain h' where
    l: "reverse_loop ?h1 (Some a) (next c) =
          Some (h', (if as = [] then Some a else Some (last as)))"
    and p': "path h' (if as = [] then Some a else Some (last as)) (rev as @ a # ps) None"
    and v': "\<forall>b. node_value h' b = node_value ?h1 b" by blast
  have v: "\<forall>b. node_value h' b = node_value h b"
    using v' c by (simp add: node_value_set_next)
  have "reverse_loop h prev cur =
          Some (h', (if a # as = [] then prev else Some (last (a # as))))"
    using cur c l by (subst reverse_loop.simps) (simp add: set_next_Some [OF c])
  moreover have "path h' (if a # as = [] then prev else Some (last (a # as)))
                   (rev (a # as) @ ps) None"
    using p' by (cases "as = []") auto
  ultimately show ?case using v by blast
qed

lemma reverse_list_at:
  assumes "list_at h l as"
  shows "\<exists>h' l'. reverse h l = Some (Inr (), h', l') \<and> list_at h' l' (rev as) \<and>
           map (node_value h') (rev as) = rev (map (node_value h) as)"
proof -
  from assms have p: "path h (ll_head l) as None" and s: "ll_size l = length as"
    by (simp_all add: list_at_def)
  have "path h None [] None" by simp
  with p obtain h' where
    l: "reverse_loop h None (ll_head l) = Some (h', (if as = [] then None else Some (last as)))"
    and p': "path h' (if as = [] then None else Some (last as)) (rev as @ []) None"
    and v: "\<forall>a. node_value h' a = node_value h a"
    using reverse_loop_path [of h "ll_head l" as None "[]"] by auto
  let ?l' = "l\<lparr>ll_tail := ll_head l,
                ll_head := (if as = [] then None else Some (last as))\<rparr>"
  have r: "reverse h l = Some (Inr (), h', ?l')"
    using l by (simp add: reverse_def Let_def)
  have hd: "ll_head l = (if as = [] then None else Some (hd as))"
    using p by (cases as) auto
  have la: "list_at h' ?l' (rev as)"
    using p' s hd by (auto simp: list_at_def last_rev)
  have "map (node_value h') (rev as) = rev (map (node_value h) as)"
    using v by (simp add: rev_map)
  with r la show ?thesis by (intro exI conjI) (assumption+)
qed

subsection \<open>The operations on a list that satisfies the invariant\<close>

lemma list_at_inv: "list_at h l as \<Longrightarrow> LinkedList_inv h l"
  using inv_iff by blast

lemma inv_push_front:
  assumes "LinkedList_inv h l"
  shows "\<exists>h' l'. push_front h l v = Some (Inr (), h', l') \<and> LinkedList_inv h' l' \<and>
           elements h' l' = v # elements h l"
proof -
  from assms obtain as where a: "list_at h l as" using inv_iff by blast
  from push_front_list_at [OF a, of v] obtain h' l' where
    "push_front h l v = Some (Inr (), h', l')" and a': "list_at h' l' (length h # as)"
    and "map (node_value h') (length h # as) = v # map (node_value h) as" by (elim exE conjE) (rule that)
  then show ?thesis using a by (metis elements_eq list_at_inv)
qed

lemma inv_push_back:
  assumes "LinkedList_inv h l"
  shows "\<exists>h' l'. push_back h l v = Some (Inr (), h', l') \<and> LinkedList_inv h' l' \<and>
           elements h' l' = elements h l @ [v]"
proof -
  from assms obtain as where a: "list_at h l as" using inv_iff by blast
  from push_back_list_at [OF a, of v] obtain h' l' where
    "push_back h l v = Some (Inr (), h', l')" and a': "list_at h' l' (as @ [length h])"
    and "map (node_value h') (as @ [length h]) = map (node_value h) as @ [v]" by (elim exE conjE) (rule that)
  then show ?thesis using a by (metis elements_eq list_at_inv)
qed

lemma inv_size: "LinkedList_inv h l \<Longrightarrow> ll_size l = length (elements h l)"
proof -
  assume "LinkedList_inv h l"
  then obtain as where a: "list_at h l as" using inv_iff by blast
  then show ?thesis by (simp add: elements_eq) (simp add: list_at_def)
qed

lemma inv_pop_front:
  assumes "LinkedList_inv h l" and "ll_size l \<noteq> 0"
  shows "\<exists>h' l'. pop_front h l = Some (Inr (), h', l') \<and> LinkedList_inv h' l' \<and>
           elements h' l' = tl (elements h l)"
proof -
  from assms obtain as where a: "list_at h l as" using inv_iff by blast
  with assms(2) obtain b bs where as: "as = b # bs" by (cases as) (auto simp: list_at_def)
  from pop_front_list_at [OF a [unfolded as]] obtain h' l' where
    "pop_front h l = Some (Inr (), h', l')" and a': "list_at h' l' bs"
    and "map (node_value h') bs = map (node_value h) bs" by (elim exE conjE) (rule that)
  moreover have "elements h l = node_value h b # map (node_value h) bs"
    using a as by (simp add: elements_eq)
  ultimately show ?thesis by (metis elements_eq list_at_inv list.sel(3))
qed

lemma inv_pop_back:
  assumes "LinkedList_inv h l" and "ll_size l \<noteq> 0"
  shows "\<exists>h' l'. pop_back h l = Some (Inr (), h', l') \<and> LinkedList_inv h' l' \<and>
           elements h' l' = butlast (elements h l)"
proof -
  from assms obtain as where a: "list_at h l as" using inv_iff by blast
  with assms(2) have "as \<noteq> []" by (auto simp: list_at_def)
  then obtain bs b where as: "as = bs @ [b]" by (metis rev_exhaust)
  from pop_back_list_at [OF a [unfolded as]] obtain h' l' where
    "pop_back h l = Some (Inr (), h', l')" and a': "list_at h' l' bs"
    and "map (node_value h') bs = map (node_value h) bs" by (elim exE conjE) (rule that)
  moreover have "elements h l = map (node_value h) bs @ [node_value h b]"
    using a as by (simp add: elements_eq)
  ultimately show ?thesis by (metis elements_eq list_at_inv butlast_snoc)
qed

lemma inv_front:
  assumes "LinkedList_inv h l" and "ll_size l \<noteq> 0"
  shows "ll_front h l = Some (Inr (hd (elements h l)))"
proof -
  from assms obtain as where a: "list_at h l as" using inv_iff by blast
  with assms(2) obtain b bs where as: "as = b # bs" by (cases as) (auto simp: list_at_def)
  with a front_list_at [of h l b bs] show ?thesis by (simp add: elements_eq)
qed

lemma inv_back:
  assumes "LinkedList_inv h l" and "ll_size l \<noteq> 0"
  shows "ll_back h l = Some (Inr (last (elements h l)))"
proof -
  from assms obtain as where a: "list_at h l as" using inv_iff by blast
  with assms(2) have "as \<noteq> []" by (auto simp: list_at_def)
  then obtain bs b where as: "as = bs @ [b]" by (metis rev_exhaust)
  with a back_list_at [of h l bs b] show ?thesis by (simp add: elements_eq)
qed

lemma inv_at:
  assumes "LinkedList_inv h l" and "i < ll_size l"
  shows "at h l i = Some (Inr (elements h l ! i))"
proof -
  from assms obtain as where a: "list_at h l as" using inv_iff by blast
  with assms(2) have "i < length as" by (simp add: list_at_def)
  with a at_list_at [of h l as i] show ?thesis by (simp add: elements_eq)
qed

lemma inv_insert:
  assumes "LinkedList_inv h l" and "i \<le> ll_size l"
  shows "\<exists>h' l'. ll_insert h l i v = Some (Inr (), h', l') \<and> LinkedList_inv h' l' \<and>
           elements h' l' = take i (elements h l) @ v # drop i (elements h l)"
proof -
  from assms obtain as where a: "list_at h l as" using inv_iff by blast
  then have s: "ll_size l = length as" by (simp add: list_at_def)
  have e: "elements h l = map (node_value h) as" using a by (rule elements_eq)
  consider (zero) "i = 0" | (full) "i \<noteq> 0" and "i = ll_size l" | (mid) "0 < i" and "i < ll_size l"
    using assms(2) by linarith
  then show ?thesis
  proof cases
    case zero
    then have "ll_insert h l i v = push_front h l v" by (simp add: ll_insert_def)
    with inv_push_front [OF assms(1), of v] zero show ?thesis by simp
  next
    case full
    then have "ll_insert h l i v = push_back h l v" by (simp add: ll_insert_def)
    with inv_push_back [OF assms(1), of v] full s e show ?thesis by simp
  next
    case mid
    then have "i < length as" using s by simp
    from insert_list_at [OF a mid(1) this, of v] obtain h' l' where
      "ll_insert h l i v = Some (Inr (), h', l')"
      and "list_at h' l' (take i as @ length h # drop i as)"
      and "map (node_value h') (take i as @ length h # drop i as) =
             take i (map (node_value h) as) @ v # drop i (map (node_value h) as)" by (elim exE conjE) (rule that)
    then show ?thesis using e by (metis elements_eq list_at_inv)
  qed
qed

lemma inv_erase:
  assumes "LinkedList_inv h l" and "i < ll_size l"
  shows "\<exists>h' l'. erase h l i = Some (Inr (), h', l') \<and> LinkedList_inv h' l' \<and>
           elements h' l' = take i (elements h l) @ drop (Suc i) (elements h l)"
proof -
  from assms obtain as where a: "list_at h l as" using inv_iff by blast
  then have s: "ll_size l = length as" by (simp add: list_at_def)
  have e: "elements h l = map (node_value h) as" using a by (rule elements_eq)
  show ?thesis
  proof (cases "i = 0")
    case True
    then have "erase h l i = pop_front h l" using assms(2) by (simp add: erase_def)
    moreover have "ll_size l \<noteq> 0" using assms(2) by simp
    ultimately show ?thesis using inv_pop_front [OF assms(1)] True by (simp add: drop_Suc)
  next
    case False
    then have i0: "0 < i" by simp
    have "i < length as" using assms(2) s by simp
    from erase_list_at [OF a i0 this] obtain h' l' where
      "erase h l i = Some (Inr (), h', l')"
      and "list_at h' l' (take i as @ drop (Suc i) as)"
      and "map (node_value h') (take i as @ drop (Suc i) as) =
             take i (map (node_value h) as) @ drop (Suc i) (map (node_value h) as)" by (elim exE conjE) (rule that)
    then show ?thesis using e by (metis elements_eq list_at_inv)
  qed
qed

lemma inv_reverse:
  assumes "LinkedList_inv h l"
  shows "\<exists>h' l'. reverse h l = Some (Inr (), h', l') \<and> LinkedList_inv h' l' \<and>
           elements h' l' = rev (elements h l)"
proof -
  from assms obtain as where a: "list_at h l as" using inv_iff by blast
  from reverse_list_at [OF a] obtain h' l' where
    "reverse h l = Some (Inr (), h', l')" and "list_at h' l' (rev as)"
    and "map (node_value h') (rev as) = rev (map (node_value h) as)" by (elim exE conjE) (rule that)
  then show ?thesis using a by (metis elements_eq list_at_inv)
qed

lemma inv_new: "LinkedList_inv [] LinkedList \<and> elements [] LinkedList = []"
  by (simp add: LinkedList_inv_def elements_def LinkedList_def)

lemma demo_list_built:
  "push_all [] LinkedList [10, 20, 30 :: int] = Some (demo_heap, demo_list)"
  by (simp add: push_back_def new_Node_def set_next_def deref_def LinkedList_def
      demo_heap_def demo_list_def)

lemma demo_list_inv: "LinkedList_inv demo_heap demo_list"
  by (simp add: LinkedList_inv_def demo_heap_def demo_list_def deref_def eval_nat_numeral)

lemma demo_list_elements: "elements demo_heap demo_list = [10, 20, 30]"
  by (simp add: elements_def demo_heap_def demo_list_def deref_def eval_nat_numeral)

subsection \<open>The claims about the list\<close>

lemma returns_Some_Inr [simp]: "returns (Some (Inr v))"
  by (simp add: returns_def)

lemma returns_outcome [simp]: "returns (outcome (Some (Inr u, s)))"
  by (simp add: returns_def outcome_def)

lemma throws_not_returns: "throws msg r \<Longrightarrow> \<not> returns r"
  by (simp add: throws_def returns_def)

text \<open>
  Claim C5. On a list that satisfies the invariant of the data model, \<open>front()\<close>, \<open>back()\<close>,
  \<open>pop_front()\<close> and \<open>pop_back()\<close> throw (\<open>std::out_of_range\<close> with the message
  \<open>List is empty\<close>) exactly when the size is 0; \<open>insert(index, v)\<close> throws
  (\<open>Index out of bounds\<close>) exactly when \<open>index > size\<close>; \<open>at(index)\<close> and \<open>erase(index)\<close>
  throw exactly when \<open>index >= size\<close>; in every other case the call returns. A call that
  throws does not return, so each line below is an equivalence.
\<close>

theorem C5_errors_iff_precondition:
  "LinkedList_inv h l \<Longrightarrow>
   (ll_size l = 0 \<longrightarrow>
      throws ''List is empty'' (ll_front h l) \<and> throws ''List is empty'' (ll_back h l) \<and>
      throws ''List is empty'' (outcome (pop_front h l)) \<and>
      throws ''List is empty'' (outcome (pop_back h l))) \<and>
   (ll_size l \<noteq> 0 \<longrightarrow>
      returns (ll_front h l) \<and> returns (ll_back h l) \<and>
      returns (outcome (pop_front h l)) \<and> returns (outcome (pop_back h l))) \<and>
   (index > ll_size l \<longrightarrow> throws ''Index out of bounds'' (outcome (ll_insert h l index v))) \<and>
   (index \<le> ll_size l \<longrightarrow> returns (outcome (ll_insert h l index v))) \<and>
   (index \<ge> ll_size l \<longrightarrow>
      throws ''Index out of bounds'' (at h l index) \<and>
      throws ''Index out of bounds'' (outcome (erase h l index))) \<and>
   (index < ll_size l \<longrightarrow> returns (at h l index) \<and> returns (outcome (erase h l index)))"
proof -
  assume i: "LinkedList_inv h l"
  have 1: "ll_size l = 0 \<Longrightarrow>
      throws ''List is empty'' (ll_front h l) \<and> throws ''List is empty'' (ll_back h l) \<and>
      throws ''List is empty'' (outcome (pop_front h l)) \<and>
      throws ''List is empty'' (outcome (pop_back h l))"
    by (simp add: throws_def outcome_def ll_front_def ll_back_def pop_front_def pop_back_def
        ll_empty_def)
  have 2: "ll_size l \<noteq> 0 \<Longrightarrow>
      returns (ll_front h l) \<and> returns (ll_back h l) \<and>
      returns (outcome (pop_front h l)) \<and> returns (outcome (pop_back h l))"
  proof -
    assume n: "ll_size l \<noteq> 0"
    from inv_pop_front [OF i n] have "returns (outcome (pop_front h l))" by auto
    moreover from inv_pop_back [OF i n] have "returns (outcome (pop_back h l))" by auto
    ultimately show ?thesis by (simp add: inv_front [OF i n] inv_back [OF i n])
  qed
  have 3: "index > ll_size l \<Longrightarrow>
      throws ''Index out of bounds'' (outcome (ll_insert h l index v))"
    by (simp add: throws_def outcome_def ll_insert_def)
  have 4: "index \<le> ll_size l \<Longrightarrow> returns (outcome (ll_insert h l index v))"
    using inv_insert [OF i, of index v] by auto
  have 5: "index \<ge> ll_size l \<Longrightarrow>
      throws ''Index out of bounds'' (at h l index) \<and>
      throws ''Index out of bounds'' (outcome (erase h l index))"
    by (simp add: throws_def outcome_def at_def erase_def)
  have 6: "index < ll_size l \<Longrightarrow>
      returns (at h l index) \<and> returns (outcome (erase h l index))"
    using inv_erase [OF i, of index] inv_at [OF i, of index] by auto
  from 1 2 3 4 5 6 show ?thesis by blast
qed

theorem C5_errors_iff_precondition_witness:
  "LinkedList_inv demo_heap demo_list \<and> ll_size demo_list = 3 \<and>
   returns (ll_front demo_heap demo_list) \<and> returns (outcome (pop_back demo_heap demo_list)) \<and>
   throws ''Index out of bounds'' (outcome (ll_insert demo_heap demo_list 4 (25::int))) \<and>
   returns (outcome (ll_insert demo_heap demo_list 3 25)) \<and>
   throws ''Index out of bounds'' (at demo_heap demo_list 3) \<and>
   returns (outcome (erase demo_heap demo_list 2)) \<and>
   LinkedList_inv ([] :: int heap) LinkedList \<and>
   throws ''List is empty'' (ll_front ([] :: int heap) LinkedList) \<and>
   throws ''List is empty'' (outcome (pop_back ([] :: int heap) LinkedList))"
proof -
  have s: "ll_size demo_list = 3" by (simp add: demo_list_def)
  have e: "LinkedList_inv ([] :: int heap) LinkedList" using inv_new by blast
  have z: "ll_size LinkedList = 0" by (simp add: LinkedList_def)
  from C5_errors_iff_precondition [OF demo_list_inv, of 4 25]
    C5_errors_iff_precondition [OF demo_list_inv, of 3 25]
    C5_errors_iff_precondition [OF demo_list_inv, of 2 25]
    C5_errors_iff_precondition [OF e, of 0 0] demo_list_inv e s z
  show ?thesis by simp
qed

text \<open>
  Claim C6. When \<open>pop_front\<close>, \<open>pop_back\<close>, \<open>insert\<close> or \<open>erase\<close> throws, the free store and
  the members \<open>head_\<close>, \<open>tail_\<close>, \<open>size_\<close> are what they were before the call, and so are
  the element sequence, the size, the front and the back.
\<close>

theorem C6_throw_leaves_list_unchanged:
  "(pop_front h l = Some (Inl e, h', l') \<longrightarrow> h' = h \<and> l' = l) \<and>
   (pop_back h l = Some (Inl e, h', l') \<longrightarrow> h' = h \<and> l' = l) \<and>
   (ll_insert h l index v = Some (Inl e, h', l') \<longrightarrow> h' = h \<and> l' = l) \<and>
   (erase h l index = Some (Inl e, h', l') \<longrightarrow> h' = h \<and> l' = l)"
proof -
  have pf: "pop_front h l = Some (Inl e, h', l') \<Longrightarrow> h' = h \<and> l' = l" for h l e h' l'
    by (auto simp: pop_front_def Let_def split: if_splits Option.bind_splits)
  have pb: "pop_back h l = Some (Inl e, h', l') \<Longrightarrow> h' = h \<and> l' = l"
    by (auto simp: pop_back_def split: if_splits Option.bind_splits)
  have uf: "push_front h l v \<noteq> Some (Inl e, h', l')"
    by (auto simp: push_front_def new_Node_def Let_def split: Option.bind_splits)
  have ub: "push_back h l v \<noteq> Some (Inl e, h', l')"
    by (auto simp: push_back_def new_Node_def split: if_splits Option.bind_splits)
  have ins: "ll_insert h l index v = Some (Inl e, h', l') \<Longrightarrow> h' = h \<and> l' = l"
    using uf ub
    by (auto simp: ll_insert_def new_Node_def split: if_splits Option.bind_splits)
  have er: "erase h l index = Some (Inl e, h', l') \<Longrightarrow> h' = h \<and> l' = l"
    using pf [of h l e h' l']
    by (auto simp: erase_def Let_def split: if_splits Option.bind_splits)
  from pf pb ins er show ?thesis by blast
qed

theorem C6_throw_leaves_list_unchanged_witness:
  "pop_back demo_heap LinkedList = Some (Inl (out_of_range ''List is empty''), demo_heap, LinkedList) \<and>
   erase demo_heap demo_list 3 =
     Some (Inl (out_of_range ''Index out of bounds''), demo_heap, demo_list)"
proof -
  have 1: "pop_back demo_heap LinkedList =
      Some (Inl (out_of_range ''List is empty''), demo_heap, LinkedList)"
    by (simp add: pop_back_def ll_empty_def LinkedList_def)
  have "\<exists>e h' l'. erase demo_heap demo_list 3 = Some (Inl e, h', l')"
    by (simp add: erase_def demo_list_def)
  then obtain e h' l' where r: "erase demo_heap demo_list 3 = Some (Inl e, h', l')" by blast
  with C6_throw_leaves_list_unchanged [of demo_heap demo_list e h' l' 3 0]
  have "h' = demo_heap \<and> l' = demo_list" by blast
  with r have "erase demo_heap demo_list 3 = Some (Inl e, demo_heap, demo_list)" by simp
  moreover have "e = out_of_range ''Index out of bounds''"
    using r by (simp add: erase_def demo_list_def)
  ultimately show ?thesis using 1 by simp
qed

text \<open>
  Claim C8. On a list that satisfies the invariant, \<open>reverse()\<close> returns with the elements in
  reverse order, the same multiset of elements and the same size; a second \<open>reverse()\<close>
  gives back the original order, and \<open>front()\<close> and \<open>back()\<close> then give what they gave on
  the original list.
\<close>

theorem C8_reverse_twice:
  "LinkedList_inv h l \<Longrightarrow>
   \<exists>h1 l1 h2 l2.
     reverse h l = Some (Inr (), h1, l1) \<and> LinkedList_inv h1 l1 \<and>
     elements h1 l1 = rev (elements h l) \<and>
     mset (elements h1 l1) = mset (elements h l) \<and> ll_size l1 = ll_size l \<and>
     reverse h1 l1 = Some (Inr (), h2, l2) \<and> LinkedList_inv h2 l2 \<and>
     elements h2 l2 = elements h l \<and> ll_size l2 = ll_size l \<and>
     ll_front h2 l2 = ll_front h l \<and> ll_back h2 l2 = ll_back h l"
proof -
  assume i: "LinkedList_inv h l"
  from inv_reverse [OF i] obtain h1 l1 where r1: "reverse h l = Some (Inr (), h1, l1)"
    and i1: "LinkedList_inv h1 l1" and e1: "elements h1 l1 = rev (elements h l)"
    by (elim exE conjE) (rule that)
  from inv_reverse [OF i1] obtain h2 l2 where r2: "reverse h1 l1 = Some (Inr (), h2, l2)"
    and i2: "LinkedList_inv h2 l2" and e2: "elements h2 l2 = rev (elements h1 l1)"
    by (elim exE conjE) (rule that)
  have e2': "elements h2 l2 = elements h l" using e1 e2 by simp
  have s1: "ll_size l1 = ll_size l" using inv_size [OF i] inv_size [OF i1] e1 by simp
  have s2: "ll_size l2 = ll_size l" using inv_size [OF i] inv_size [OF i2] e2' by simp
  have f: "ll_front h2 l2 = ll_front h l \<and> ll_back h2 l2 = ll_back h l"
  proof (cases "ll_size l = 0")
    case True
    with s2 show ?thesis by (simp add: ll_front_def ll_back_def ll_empty_def)
  next
    case False
    with s2 have "ll_size l2 \<noteq> 0" by simp
    with False show ?thesis
      by (simp add: inv_front [OF i] inv_front [OF i2] inv_back [OF i] inv_back [OF i2] e2')
  qed
  have m: "mset (elements h1 l1) = mset (elements h l)" using e1 by simp
  from r1 i1 e1 m s1 r2 i2 e2' s2 f show ?thesis by blast
qed

theorem C8_reverse_twice_witness:
  "LinkedList_inv demo_heap demo_list \<and>
   (\<exists>h1 l1 h2 l2.
     reverse demo_heap demo_list = Some (Inr (), h1, l1) \<and> elements h1 l1 = [30, 20, 10] \<and>
     reverse h1 l1 = Some (Inr (), h2, l2) \<and> elements h2 l2 = [10, 20, 30] \<and>
     ll_front h2 l2 = Some (Inr 10) \<and> ll_back h2 l2 = Some (Inr 30))"
proof -
  have f: "ll_front demo_heap demo_list = Some (Inr 10)"
    by (simp add: ll_front_def ll_empty_def demo_heap_def demo_list_def deref_def)
  have b: "ll_back demo_heap demo_list = Some (Inr 30)"
    by (simp add: ll_back_def ll_empty_def demo_heap_def demo_list_def deref_def)
  from C8_reverse_twice [OF demo_list_inv] f b demo_list_inv show ?thesis
    by (simp add: demo_list_elements) blast
qed

section \<open>Properties of the binary search tree\<close>

subsection \<open>Insertion\<close>

lemma set_insert_node:
  "set_BST_Node (fst (insert_node t v sz)) = insert v (set_BST_Node t)"
  by (induction t v sz rule: insert_node.induct) (auto simp: split_beta)

lemma BST_insert_node:
  "BST_property t \<Longrightarrow> BST_property (fst (insert_node t v sz))"
proof (induction t v sz rule: insert_node.induct)
  case (1 v sz)
  show ?case by simp
next
  case (2 d l r v sz)
  show ?case
  proof (cases "v < d")
    case True
    have "set_BST_Node (fst (insert_node l v sz)) = insert v (set_BST_Node l)"
      by (rule set_insert_node)
    with True 2 show ?thesis by (auto simp: split_beta)
  next
    case False
    have "set_BST_Node (fst (insert_node r v sz)) = insert v (set_BST_Node r)"
      by (rule set_insert_node)
    with False 2 show ?thesis by (auto simp: split_beta)
  qed
qed

lemma insert_node_present:
  "BST_property t \<Longrightarrow> v \<in> set_BST_Node t \<Longrightarrow> insert_node t v sz = (t, sz)"
  by (induction t v sz rule: insert_node.induct) (auto simp: split_beta)

lemma insert_node_absent:
  "v \<notin> set_BST_Node t \<Longrightarrow>
   snd (insert_node t v sz) = sz + 1 \<and>
   count_nodes (fst (insert_node t v sz)) = count_nodes t + 1"
  by (induction t v sz rule: insert_node.induct) (auto simp: split_beta)

subsection \<open>Minimum and maximum\<close>

lemma findMin_not_null: "t \<noteq> nullptr \<Longrightarrow> findMin t \<noteq> nullptr"
  by (induction t) auto

lemma findMax_not_null: "t \<noteq> nullptr \<Longrightarrow> findMax t \<noteq> nullptr"
  by (induction t) auto

lemma findMin_member: "t \<noteq> nullptr \<Longrightarrow> BST_Node.data (findMin t) \<in> set_BST_Node t"
  by (induction t) auto

lemma findMax_member: "t \<noteq> nullptr \<Longrightarrow> BST_Node.data (findMax t) \<in> set_BST_Node t"
  by (induction t) auto

lemma findMin_least:
  "BST_property t \<Longrightarrow> x \<in> set_BST_Node t \<Longrightarrow> BST_Node.data (findMin t) \<le> x"
proof (induction t)
  case nullptr
  then show ?case by simp
next
  case (Node d l r)
  show ?case
  proof (cases "l = nullptr")
    case True
    with Node.prems show ?thesis by auto
  next
    case False
    then have "BST_Node.data (findMin l) \<in> set_BST_Node l" by (rule findMin_member)
    with Node.prems have "BST_Node.data (findMin l) < d" by simp
    with False Node show ?thesis by fastforce
  qed
qed

lemma findMax_greatest:
  "BST_property t \<Longrightarrow> x \<in> set_BST_Node t \<Longrightarrow> x \<le> BST_Node.data (findMax t)"
proof (induction t)
  case nullptr
  then show ?case by simp
next
  case (Node d l r)
  show ?case
  proof (cases "r = nullptr")
    case True
    with Node.prems show ?thesis by auto
  next
    case False
    then have "BST_Node.data (findMax r) \<in> set_BST_Node r" by (rule findMax_member)
    with Node.prems have "d < BST_Node.data (findMax r)" by simp
    with False Node show ?thesis by fastforce
  qed
qed

subsection \<open>Removal\<close>

lemma remove_node_absent:
  "v \<notin> set_BST_Node t \<Longrightarrow> remove_node t v sz = (t, sz)"
  by (induction t v sz rule: remove_node.induct) (auto simp: split_beta)

lemma set_remove_node:
  "BST_property t \<Longrightarrow>
   set_BST_Node (fst (remove_node t v sz)) = set_BST_Node t - {v} \<and>
   BST_property (fst (remove_node t v sz))"
proof (induction t v sz rule: remove_node.induct)
  case (1 v sz)
  show ?case by simp
next
  case (2 d l r v sz)
  from "2.prems" have bl: "BST_property l" and br: "BST_property r"
    and ll: "\<forall>x \<in> set_BST_Node l. x < d" and rr: "\<forall>x \<in> set_BST_Node r. d < x"
    by simp_all
  consider (lt) "v < d" | (gt) "d < v" | (eq) "v = d" by (rule linorder_cases)
  then show ?case
  proof cases
    case lt
    with 2 bl have "set_BST_Node (fst (remove_node l v sz)) = set_BST_Node l - {v}"
      and "BST_property (fst (remove_node l v sz))" by simp_all
    with lt ll rr br show ?thesis by (auto simp: split_beta)
  next
    case gt
    then have ng: "\<not> v < d" by simp
    with 2 gt br have "set_BST_Node (fst (remove_node r v sz)) = set_BST_Node r - {v}"
      and "BST_property (fst (remove_node r v sz))" by simp_all
    with gt ng ll rr bl show ?thesis by (auto simp: split_beta)
  next
    case eq
    show ?thesis
    proof (cases "l = nullptr \<or> r = nullptr")
      case True
      with eq ll rr bl br show ?thesis by auto
    next
      case False
      then have ln: "l \<noteq> nullptr" and rn: "r \<noteq> nullptr" by simp_all
      let ?m = "BST_Node.data (findMin r)"
      have mr: "?m \<in> set_BST_Node r" using rn by (rule findMin_member)
      have ml: "\<forall>x \<in> set_BST_Node r. ?m \<le> x" using br by (simp add: findMin_least)
      from 2 eq ln rn br
      have s: "set_BST_Node (fst (remove_node r ?m sz)) = set_BST_Node r - {?m}"
        and b: "BST_property (fst (remove_node r ?m sz))" by simp_all
      have dm: "d < ?m" using rr mr by simp
      have "\<forall>x \<in> set_BST_Node (fst (remove_node r ?m sz)). ?m < x"
        using s ml by auto
      moreover have "\<forall>x \<in> set_BST_Node l. x < ?m" using ll dm by auto
      moreover have "insert ?m (set_BST_Node l \<union> (set_BST_Node r - {?m})) =
                     insert d (set_BST_Node l \<union> set_BST_Node r) - {d}"
        using mr ll rr by auto
      ultimately show ?thesis using eq ln rn s b bl
        by (simp add: split_beta)
    qed
  qed
qed

lemma remove_node_present:
  "BST_property t \<Longrightarrow> v \<in> set_BST_Node t \<Longrightarrow>
   snd (remove_node t v sz) = sz - 1 \<and>
   count_nodes (fst (remove_node t v sz)) + 1 = count_nodes t"
proof (induction t v sz rule: remove_node.induct)
  case (1 v sz)
  then show ?case by simp
next
  case (2 d l r v sz)
  from "2.prems" have bl: "BST_property l" and br: "BST_property r"
    and ll: "\<forall>x \<in> set_BST_Node l. x < d" and rr: "\<forall>x \<in> set_BST_Node r. d < x"
    by simp_all
  consider (lt) "v < d" | (gt) "d < v" | (eq) "v = d" by (rule linorder_cases)
  then show ?case
  proof cases
    case lt
    with "2.prems" rr have "v \<in> set_BST_Node l" by auto
    with 2 lt bl show ?thesis by (simp add: split_beta)
  next
    case gt
    then have ng: "\<not> v < d" by simp
    with "2.prems" ll gt have "v \<in> set_BST_Node r" by auto
    with 2 gt ng br show ?thesis by (simp add: split_beta)
  next
    case eq
    show ?thesis
    proof (cases "l = nullptr \<or> r = nullptr")
      case True
      with eq show ?thesis by auto
    next
      case False
      then have ln: "l \<noteq> nullptr" and rn: "r \<noteq> nullptr" by simp_all
      have "BST_Node.data (findMin r) \<in> set_BST_Node r" using rn by (rule findMin_member)
      with 2 eq ln rn br show ?thesis by (simp add: split_beta)
    qed
  qed
qed

subsection \<open>Every reachable tree satisfies the invariant\<close>

lemma bst_inv_insert: "bst_inv t \<Longrightarrow> bst_inv (bst_insert t v)"
proof -
  assume i: "bst_inv t"
  let ?p = "insert_node (bst_root t) v (bst_size t)"
  from i have b: "BST_property (bst_root t)"
    and s: "bst_size t = count_nodes (bst_root t)" by (simp_all add: bst_inv_def)
  have b': "BST_property (fst ?p)" using b by (rule BST_insert_node)
  have "snd ?p = count_nodes (fst ?p)"
  proof (cases "v \<in> set_BST_Node (bst_root t)")
    case True
    with b s show ?thesis by (simp add: insert_node_present)
  next
    case False
    from insert_node_absent [OF False, of "bst_size t"] s show ?thesis by simp
  qed
  with b' show ?thesis by (simp add: bst_inv_def bst_insert_def split_beta)
qed

lemma bst_inv_remove: "bst_inv t \<Longrightarrow> bst_inv (bst_remove t v)"
proof -
  assume i: "bst_inv t"
  let ?p = "remove_node (bst_root t) v (bst_size t)"
  from i have b: "BST_property (bst_root t)"
    and s: "bst_size t = count_nodes (bst_root t)" by (simp_all add: bst_inv_def)
  have b': "BST_property (fst ?p)" using set_remove_node [OF b] by blast
  have "snd ?p = count_nodes (fst ?p)"
  proof (cases "v \<in> set_BST_Node (bst_root t)")
    case True
    from remove_node_present [OF b True, of "bst_size t"]
    have "snd ?p = bst_size t - 1" and "count_nodes (fst ?p) + 1 = count_nodes (bst_root t)"
      by blast+
    with s show ?thesis by arith
  next
    case False
    with s show ?thesis by (simp add: remove_node_absent)
  qed
  with b' show ?thesis by (simp add: bst_inv_def bst_remove_def split_beta)
qed

lemma bst_reachable_inv: "bst_reachable t \<Longrightarrow> bst_inv t"
proof (induction rule: bst_reachable.induct)
  case bst_new
  show ?case by (simp add: bst_inv_def BinarySearchTree_def)
next
  case (bst_ins t v)
  then show ?case by (simp add: bst_inv_insert)
next
  case (bst_rem t v)
  then show ?case by (simp add: bst_inv_remove)
next
  case (bst_clr t)
  show ?case by (simp add: bst_inv_def bst_clear_def)
qed

subsection \<open>Traversal, validation and search\<close>

lemma inorder_append: "inorder t acc = acc @ inorder t []"
proof (induction t arbitrary: acc)
  case nullptr
  show ?case by simp
next
  case (Node d l r)
  have "inorder (Node d l r) acc = (inorder l acc @ [d]) @ inorder r []"
    using Node.IH(2) [of "inorder l acc @ [d]"] by simp
  also have "\<dots> = acc @ (inorder l [] @ [d]) @ inorder r []"
    using Node.IH(1) [of acc] by simp
  also have "\<dots> = acc @ inorder (Node d l r) []"
    using Node.IH(2) [of "inorder l [] @ [d]"] by simp
  finally show ?case .
qed

lemma inorder_Node: "inorder (Node d l r) [] = inorder l [] @ d # inorder r []"
  using inorder_append [of r "inorder l [] @ [d]"] by simp

lemma set_inorder: "set (inorder t []) = set_BST_Node t"
  by (induction t) (simp_all add: inorder_Node del: inorder.simps(2))

lemma length_inorder: "length (inorder t []) = count_nodes t"
  by (induction t) (simp_all add: inorder_Node del: inorder.simps(2))

lemma sorted_inorder: "BST_property t \<Longrightarrow> sorted_wrt (<) (inorder t [])"
proof (induction t)
  case nullptr
  show ?case by simp
next
  case (Node d l r)
  then have "sorted_wrt (<) (inorder l [])" and "sorted_wrt (<) (inorder r [])"
    and "\<forall>x \<in> set (inorder l []). x < d" and "\<forall>x \<in> set (inorder r []). d < x"
    by (simp_all add: set_inorder)
  then show ?case
    by (fastforce simp: inorder_Node sorted_wrt_append simp del: inorder.simps(2))
qed

lemma hd_inorder: "t \<noteq> nullptr \<Longrightarrow> hd (inorder t []) = BST_Node.data (findMin t)"
proof (induction t)
  case nullptr
  then show ?case by simp
next
  case (Node d l r)
  show ?case
  proof (cases "l = nullptr")
    case True
    then show ?thesis by (simp add: inorder_Node del: inorder.simps(2))
  next
    case False
    then have "inorder l [] \<noteq> []"
      using length_inorder [of l] by (cases l) auto
    with False Node.IH(1) show ?thesis by (simp add: inorder_Node del: inorder.simps(2))
  qed
qed

lemma last_inorder: "t \<noteq> nullptr \<Longrightarrow> last (inorder t []) = BST_Node.data (findMax t)"
proof (induction t)
  case nullptr
  then show ?case by simp
next
  case (Node d l r)
  show ?case
  proof (cases "r = nullptr")
    case True
    then show ?thesis by (simp add: inorder_Node del: inorder.simps(2))
  next
    case False
    then have "inorder r [] \<noteq> []"
      using length_inorder [of r] by (cases r) auto
    with False Node.IH(2) show ?thesis by (simp add: inorder_Node del: inorder.simps(2))
  qed
qed

lemma isValidBST_iff:
  "isValidBST t minVal maxVal =
     (BST_property t \<and> (\<forall>x \<in> set_BST_Node t. above minVal x \<and> below maxVal x))"
proof (induction t arbitrary: minVal maxVal)
  case nullptr
  show ?case by simp
next
  case (Node d l r)
  have guard: "(\<not> ((case minVal of None \<Rightarrow> False | Some lo \<Rightarrow> d \<le> lo) \<or>
                  (case maxVal of None \<Rightarrow> False | Some hi \<Rightarrow> d \<ge> hi))) =
               (above minVal d \<and> below maxVal d)"
    by (auto simp: above_def below_def split: option.splits)
  have l: "isValidBST l minVal (Some d) =
             (BST_property l \<and> (\<forall>x \<in> set_BST_Node l. above minVal x \<and> x < d))"
    by (simp add: Node.IH(1) below_def)
  have r: "isValidBST r (Some d) maxVal =
             (BST_property r \<and> (\<forall>x \<in> set_BST_Node r. d < x \<and> below maxVal x))"
    by (simp add: Node.IH(2) above_def)
  have up: "above minVal d \<Longrightarrow> d < x \<Longrightarrow> above minVal x" for x
    by (auto simp: above_def split: option.splits)
  have down: "below maxVal d \<Longrightarrow> x < d \<Longrightarrow> below maxVal x" for x
    by (auto simp: below_def split: option.splits)
  have "isValidBST (Node d l r) minVal maxVal =
          (above minVal d \<and> below maxVal d \<and>
           isValidBST l minVal (Some d) \<and> isValidBST r (Some d) maxVal)"
    using guard by auto
  also have "\<dots> = (BST_property (Node d l r) \<and>
       (\<forall>x \<in> set_BST_Node (Node d l r). above minVal x \<and> below maxVal x))"
    unfolding l r using up down by auto
  finally show ?case .
qed

lemma search_iff: "BST_property t \<Longrightarrow> search t v = (v \<in> set_BST_Node t)"
  by (induction t) auto

subsection \<open>The claims about the tree\<close>

lemma demo_tree_reachable: "bst_reachable demo_tree"
  unfolding demo_tree_def by (simp add: bst_reachable.intros)

lemma demo_tree_eq: "demo_tree = \<lparr>bst_root = Node 50 (Node 40 (Node 20 nullptr nullptr) nullptr) (Node 70 (Node 60 nullptr nullptr) (Node 80 nullptr nullptr)), bst_size = 6\<rparr>"
  by (simp add: demo_tree_def bst_remove_def bst_insert_def BinarySearchTree_def)

text \<open>
  Claim C2. Every tree built from the empty tree by \<open>insert\<close>, \<open>remove\<close> and \<open>clear\<close> calls has
  the BST property (at every node the left subtree's values are strictly less and the right
  subtree's strictly greater than the node's value), and \<open>isValid()\<close> returns true on it.
\<close>

theorem C2_bst_invariant:
  "bst_reachable t \<Longrightarrow> BST_property (bst_root t) \<and> isValid t"
proof -
  assume "bst_reachable t"
  then have "BST_property (bst_root t)" using bst_reachable_inv by (auto simp: bst_inv_def)
  then show ?thesis by (simp add: isValid_def isValidBST_iff above_def below_def)
qed

theorem C2_bst_invariant_witness:
  "bst_reachable demo_tree \<and> BST_property (bst_root demo_tree) \<and> isValid demo_tree"
  using C2_bst_invariant [OF demo_tree_reachable] demo_tree_reachable by simp

text \<open>
  Claim C4. On every tree built through the public operations, \<open>inorderTraversal()\<close> returns
  the values in strictly ascending order under \<open><\<close>; in particular the sequence is
  non-decreasing.
\<close>

theorem C4_inorder_ascending:
  "bst_reachable t \<Longrightarrow>
   sorted_wrt (<) (inorderTraversal t) \<and> sorted_wrt (\<le>) (inorderTraversal t)"
proof -
  assume "bst_reachable t"
  then have "BST_property (bst_root t)" using bst_reachable_inv by (auto simp: bst_inv_def)
  then have s: "sorted_wrt (<) (inorderTraversal t)"
    by (simp add: inorderTraversal_def sorted_inorder)
  then have "sorted_wrt (\<le>) (inorderTraversal t)"
    by (rule sorted_wrt_mono_rel [rotated]) simp
  with s show ?thesis by simp
qed

theorem C4_inorder_ascending_witness:
  "bst_reachable demo_tree \<and> inorderTraversal demo_tree = [20, 40, 50, 60, 70, 80] \<and>
   sorted_wrt (<) (inorderTraversal demo_tree)"
  using C4_inorder_ascending [OF demo_tree_reachable] demo_tree_reachable
  by (simp add: demo_tree_eq inorderTraversal_def)

text \<open>
  Claim C7. On a tree built through the public operations, \<open>insert(v)\<close> with \<open>v\<close> present and
  \<open>remove(v)\<close> with \<open>v\<close> absent leave the tree and its count as they are (the model has no
  error branch: the code has no \<open>throw\<close>); \<open>insert(v)\<close> of a new value adds exactly 1 to the
  count and \<open>remove(v)\<close> of a stored value takes exactly 1 from it.
\<close>

theorem C7_insert_remove_count:
  "bst_reachable t \<Longrightarrow>
   (bst_contains t v \<longrightarrow> bst_insert t v = t) \<and>
   (\<not> bst_contains t v \<longrightarrow> bst_remove t v = t) \<and>
   (\<not> bst_contains t v \<longrightarrow>
      bst_size (bst_insert t v) = bst_size t + 1 \<and> bst_contains (bst_insert t v) v) \<and>
   (bst_contains t v \<longrightarrow>
      bst_size (bst_remove t v) + 1 = bst_size t \<and> \<not> bst_contains (bst_remove t v) v)"
proof -
  assume r: "bst_reachable t"
  then have b: "BST_property (bst_root t)" and s: "bst_size t = count_nodes (bst_root t)"
    using bst_reachable_inv by (auto simp: bst_inv_def)
  have c: "bst_contains t v = (v \<in> set_BST_Node (bst_root t))"
    using b by (simp add: bst_contains_def search_iff)
  have bi: "bst_inv (bst_insert t v)" and br: "bst_inv (bst_remove t v)"
    using bst_reachable_inv [OF r] by (simp_all add: bst_inv_insert bst_inv_remove)
  have ci: "bst_contains (bst_insert t v) v"
    using bi set_insert_node [of "bst_root t" v "bst_size t"]
    by (simp add: bst_contains_def search_iff bst_inv_def bst_insert_def split_beta)
  have cr: "\<not> bst_contains (bst_remove t v) v"
    using br set_remove_node [OF b, of v "bst_size t"]
    by (simp add: bst_contains_def search_iff bst_inv_def bst_remove_def split_beta)
  have 1: "bst_contains t v \<Longrightarrow> bst_insert t v = t"
    using b by (simp add: c bst_insert_def insert_node_present)
  have 2: "\<not> bst_contains t v \<Longrightarrow> bst_remove t v = t"
    by (simp add: c bst_remove_def remove_node_absent)
  have 3: "\<not> bst_contains t v \<Longrightarrow> bst_size (bst_insert t v) = bst_size t + 1"
    using insert_node_absent [of v "bst_root t" "bst_size t"]
    by (simp add: c bst_insert_def split_beta)
  have 4: "bst_contains t v \<Longrightarrow> bst_size (bst_remove t v) + 1 = bst_size t"
    using remove_node_present [OF b, of v "bst_size t"] s
    by (auto simp add: c bst_remove_def split_beta)
  from 1 2 3 4 ci cr show ?thesis by blast
qed

theorem C7_insert_remove_count_witness:
  "bst_reachable demo_tree \<and> bst_contains demo_tree 40 \<and> \<not> bst_contains demo_tree 30 \<and>
   bst_insert demo_tree 40 = demo_tree \<and> bst_remove demo_tree 30 = demo_tree \<and>
   bst_size (bst_insert demo_tree 30) = 7 \<and> bst_size (bst_remove demo_tree 40) = 5"
  using C7_insert_remove_count [OF demo_tree_reachable, of 40]
    C7_insert_remove_count [OF demo_tree_reachable, of 30] demo_tree_reachable
  by (simp add: demo_tree_eq bst_contains_def)

text \<open>
  Claim C9. \<open>minimum()\<close> and \<open>maximum()\<close> return an empty optional exactly when the count is
  0; on a non-empty tree they return the smallest and the largest stored value, which are
  the first and the last element of \<open>inorderTraversal()\<close>.
\<close>

theorem C9_minimum_maximum:
  "bst_reachable t \<Longrightarrow>
   (minimum t = None \<longleftrightarrow> bst_size t = 0) \<and>
   (maximum t = None \<longleftrightarrow> bst_size t = 0) \<and>
   (bst_size t \<noteq> 0 \<longrightarrow>
      minimum t = Some (Min (set (inorderTraversal t))) \<and>
      maximum t = Some (Max (set (inorderTraversal t))) \<and>
      minimum t = Some (hd (inorderTraversal t)) \<and>
      maximum t = Some (last (inorderTraversal t)))"
proof -
  assume r: "bst_reachable t"
  then have b: "BST_property (bst_root t)" and s: "bst_size t = count_nodes (bst_root t)"
    using bst_reachable_inv by (auto simp: bst_inv_def)
  have z: "(bst_size t = 0) = (bst_root t = nullptr)"
    unfolding s by (cases "bst_root t") simp_all
  have mn: "(minimum t = None) = (bst_root t = nullptr)"
    using findMin_not_null [of "bst_root t"]
    by (auto simp: minimum_def split: BST_Node.splits)
  have mx: "(maximum t = None) = (bst_root t = nullptr)"
    using findMax_not_null [of "bst_root t"]
    by (auto simp: maximum_def split: BST_Node.splits)
  have ne: "bst_root t \<noteq> nullptr \<Longrightarrow>
      minimum t = Some (BST_Node.data (findMin (bst_root t))) \<and>
      maximum t = Some (BST_Node.data (findMax (bst_root t)))"
    using findMin_not_null [of "bst_root t"] findMax_not_null [of "bst_root t"]
    by (auto simp: minimum_def maximum_def split: BST_Node.splits)
  have st: "set (inorderTraversal t) = set_BST_Node (bst_root t)"
    by (simp add: inorderTraversal_def set_inorder)
  have Mn: "bst_root t \<noteq> nullptr \<Longrightarrow>
      Min (set (inorderTraversal t)) = BST_Node.data (findMin (bst_root t))"
    unfolding st [symmetric]
    by (rule Min_eqI) (simp_all add: st findMin_least [OF b] findMin_member)
  have Mx: "bst_root t \<noteq> nullptr \<Longrightarrow>
      Max (set (inorderTraversal t)) = BST_Node.data (findMax (bst_root t))"
    by (rule Max_eqI) (simp_all add: st findMax_greatest [OF b] findMax_member)
  show ?thesis
    using z mn mx ne Mn Mx hd_inorder [of "bst_root t"] last_inorder [of "bst_root t"]
    by (simp add: inorderTraversal_def)
qed

theorem C9_minimum_maximum_witness:
  "bst_reachable demo_tree \<and> bst_size demo_tree \<noteq> 0 \<and>
   minimum demo_tree = Some 20 \<and> maximum demo_tree = Some 80 \<and>
   bst_reachable (BinarySearchTree :: int BinarySearchTree) \<and>
   minimum (BinarySearchTree :: int BinarySearchTree) = None \<and>
   maximum (BinarySearchTree :: int BinarySearchTree) = None"
proof -
  have e: "bst_reachable (BinarySearchTree :: int BinarySearchTree)" by (rule bst_new)
  have "bst_size (BinarySearchTree :: int BinarySearchTree) = 0"
    by (simp add: BinarySearchTree_def)
  with C9_minimum_maximum [OF e] have "minimum (BinarySearchTree :: int BinarySearchTree) = None"
    and "maximum (BinarySearchTree :: int BinarySearchTree) = None" by simp_all
  with e C9_minimum_maximum [OF demo_tree_reachable] demo_tree_reachable show ?thesis
    by (simp add: demo_tree_eq inorderTraversal_def)
qed

text \<open>
  Claim C10. On every tree built through the public operations, \<open>contains(v)\<close> is true exactly
  when \<open>v\<close> is an element of \<open>inorderTraversal()\<close>.
\<close>

theorem C10_contains_iff_inorder:
  "bst_reachable t \<Longrightarrow> bst_contains t v \<longleftrightarrow> v \<in> set (inorderTraversal t)"
proof -
  assume "bst_reachable t"
  then have "BST_property (bst_root t)" using bst_reachable_inv by (auto simp: bst_inv_def)
  then show ?thesis
    by (simp add: bst_contains_def inorderTraversal_def set_inorder search_iff)
qed

theorem C10_contains_iff_inorder_witness:
  "bst_reachable demo_tree \<and> bst_contains demo_tree 60 \<and> 60 \<in> set (inorderTraversal demo_tree) \<and>
   \<not> bst_contains demo_tree 30 \<and> 30 \<notin> set (inorderTraversal demo_tree)"
  using C10_contains_iff_inorder [OF demo_tree_reachable, of 60]
    C10_contains_iff_inorder [OF demo_tree_reachable, of 30] demo_tree_reachable
  by (simp add: demo_tree_eq bst_contains_def)

section \<open>Properties of the sorting functions\<close>

subsection \<open>Machine integers\<close>

lemma static_cast_int_small: "n < 2 ^ 31 \<Longrightarrow> static_cast_int n = int n"
proof -
  assume n: "n < 2 ^ 31"
  then have "int n < 2 ^ 31" by (metis of_nat_less_iff of_nat_numeral of_nat_power)
  then have "signed_take_bit 31 (int n) = int n"
    by (intro signed_take_bit_int_eq_self) simp_all
  then show ?thesis by (simp add: static_cast_int_def signed_of_nat)
qed

subsection \<open>insertionSort: what it computes\<close>

lemma vec_at_append: "vec_at (xs @ x # zs) (int (length xs)) = Some x"
  by (simp add: vec_at_def)

lemma vec_set_append: "vec_set (xs @ x # zs) (int (length xs)) y = Some (xs @ y # zs)"
  by (simp add: vec_set_def)

lemma insertion_inner_shift:
  "insertion_inner cmp key (xs @ h # zs) (int (length xs) - 1) =
     Some (rev (dropWhile (cmp key) (rev xs)) @
           (if takeWhile (cmp key) (rev xs) = [] then h
            else last (takeWhile (cmp key) (rev xs))) #
           rev (takeWhile (cmp key) (rev xs)) @ zs,
           int (length (dropWhile (cmp key) (rev xs))) - 1)"
proof (induction xs arbitrary: h zs rule: rev_induct)
  case Nil
  show ?case by (subst insertion_inner.simps) simp
next
  case (snoc x ys)
  have at: "vec_at (ys @ x # h # zs) (int (length ys)) = Some x"
    using vec_at_append [of ys x "h # zs"] by simp
  show ?case
  proof (cases "cmp key x")
    case True
    have set: "vec_set (ys @ x # h # zs) (int (length ys) + 1) x = Some (ys @ x # x # zs)"
      using vec_set_append [of "ys @ [x]" h zs x] by (simp add: add.commute)
    have "insertion_inner cmp key ((ys @ [x]) @ h # zs) (int (length (ys @ [x])) - 1) =
            insertion_inner cmp key (ys @ x # x # zs) (int (length ys) - 1)"
      by (subst insertion_inner.simps) (simp add: at set True)
    also note snoc.IH [of x "x # zs"]
    finally show ?thesis using True by simp
  next
    case False
    have "insertion_inner cmp key ((ys @ [x]) @ h # zs) (int (length (ys @ [x])) - 1) =
            Some ((ys @ [x]) @ h # zs, int (length (ys @ [x])) - 1)"
      by (subst insertion_inner.simps) (simp add: at False)
    then show ?thesis using False by simp
  qed
qed

lemma insertion_step_insert_back:
  assumes "length xs < 2 ^ 31"
  shows "insertion_step cmp (xs @ key # zs) (length xs) = Some (insert_back cmp key xs @ zs)"
proof -
  let ?d = "dropWhile (cmp key) (rev xs)" and ?t = "takeWhile (cmp key) (rev xs)"
  let ?h = "if ?t = [] then key else last ?t"
  have "vec_set (rev ?d @ ?h # rev ?t @ zs) (int (length (rev ?d))) key =
          Some (rev ?d @ key # rev ?t @ zs)"
    by (rule vec_set_append)
  then show ?thesis
    using insertion_inner_shift [of cmp key xs key zs] assms
    by (simp add: insertion_step_def static_cast_int_small insert_back_def)
qed

lemma insertion_outer_foldl:
  "length (xs @ zs) \<le> 2 ^ 31 \<Longrightarrow>
   insertion_outer cmp (xs @ zs) (length xs) = Some (foldl (\<lambda>acc z. insert_back cmp z acc) xs zs)"
proof (induction zs arbitrary: xs)
  case Nil
  show ?case by (subst insertion_outer.simps) simp
next
  case (Cons z zs)
  then have l: "length xs < 2 ^ 31" by simp
  have len: "length (insert_back cmp z xs) = Suc (length xs)"
    by (simp add: insert_back_def) (metis length_append length_rev takeWhile_dropWhile_id add.commute)
  have "insertion_outer cmp (xs @ z # zs) (length xs) =
          insertion_outer cmp (insert_back cmp z xs @ zs) (length (insert_back cmp z xs))"
    by (subst insertion_outer.simps) (simp add: insertion_step_insert_back [OF l] len)
  also have "\<dots> = Some (foldl (\<lambda>acc z. insert_back cmp z acc) (insert_back cmp z xs) zs)"
    using Cons.prems by (intro Cons.IH) (simp add: len)
  finally show ?case by simp
qed

lemma insertionSort_foldl:
  assumes "length arr \<le> 2 ^ 31"
  shows "insertionSort cmp arr =
           Some (case arr of [] \<Rightarrow> [] | x # zs \<Rightarrow> foldl (\<lambda>acc z. insert_back cmp z acc) [x] zs)"
proof (cases arr)
  case Nil
  then show ?thesis by (simp add: insertionSort_def insertion_outer.simps)
next
  case (Cons x zs)
  with insertion_outer_foldl [of "[x]" zs cmp] assms show ?thesis
    by (simp add: insertionSort_def)
qed

subsection \<open>isSorted, and one insertion\<close>

lemma isSorted_from_iff:
  "1 \<le> i \<Longrightarrow>
   isSorted_from cmp arr i = (\<forall>k. i \<le> k \<and> k < length arr \<longrightarrow> \<not> cmp (arr ! k) (arr ! (k - 1)))"
proof (induction cmp arr i rule: isSorted_from.induct)
  case (1 cmp arr i)
  show ?case
  proof (cases "i < length arr")
    case False
    have "isSorted_from cmp arr i" using False by (subst isSorted_from.simps) simp
    moreover have "\<not> cmp (arr ! k) (arr ! (k - 1))" if "i \<le> k \<and> k < length arr" for k
    proof -
      from that False have False by linarith
      then show ?thesis ..
    qed
    ultimately show ?thesis by blast
  next
    case True
    show ?thesis
    proof (cases "cmp (arr ! i) (arr ! (i - 1))")
      case c: True
      with True show ?thesis by (subst isSorted_from.simps) auto
    next
      case c: False
      have "isSorted_from cmp arr i = isSorted_from cmp arr (i + 1)"
        using True c by (subst isSorted_from.simps) simp
      also have "\<dots> = (\<forall>k. i + 1 \<le> k \<and> k < length arr \<longrightarrow> \<not> cmp (arr ! k) (arr ! (k - 1)))"
        using True c by (intro "1.IH") simp_all
      also have "\<dots> = (\<forall>k. i \<le> k \<and> k < length arr \<longrightarrow> \<not> cmp (arr ! k) (arr ! (k - 1)))"
        using c by (metis Suc_eq_plus1 Suc_leI le_eq_less_or_eq Suc_leD)
      finally show ?thesis .
    qed
  qed
qed

lemma isSorted_iff: "isSorted cmp arr = successively (\<lambda>x y. \<not> cmp y x) arr"
proof -
  have "isSorted cmp arr = (\<forall>k. 1 \<le> k \<and> k < length arr \<longrightarrow> \<not> cmp (arr ! k) (arr ! (k - 1)))"
    unfolding isSorted_def by (rule isSorted_from_iff) simp
  also have "\<dots> = (\<forall>i. Suc i < length arr \<longrightarrow> \<not> cmp (arr ! Suc i) (arr ! i))"
  proof (intro iffI allI impI)
    fix i assume a: "\<forall>k. 1 \<le> k \<and> k < length arr \<longrightarrow> \<not> cmp (arr ! k) (arr ! (k - 1))"
      and "Suc i < length arr"
    then show "\<not> cmp (arr ! Suc i) (arr ! i)" using a [rule_format, of "Suc i"] by simp
  next
    fix k assume a: "\<forall>i. Suc i < length arr \<longrightarrow> \<not> cmp (arr ! Suc i) (arr ! i)"
      and k: "1 \<le> k \<and> k < length arr"
    then obtain i where "k = Suc i" by (cases k) auto
    with a k show "\<not> cmp (arr ! k) (arr ! (k - 1))" by simp
  qed
  finally show ?thesis by (simp add: successively_conv_nth)
qed

lemma insert_back_split:
  "\<exists>a b. xs = a @ b \<and> insert_back cmp k xs = a @ k # b \<and> (\<forall>x \<in> set b. cmp k x) \<and>
         (a = [] \<or> \<not> cmp k (last a))"
proof -
  let ?t = "takeWhile (cmp k) (rev xs)" and ?d = "dropWhile (cmp k) (rev xs)"
  have "rev xs = ?t @ ?d" by simp
  then have "xs = rev ?d @ rev ?t" by (metis rev_append rev_rev_ident)
  moreover have "\<forall>x \<in> set (rev ?t). cmp k x" by (auto dest: set_takeWhileD)
  moreover have "rev ?d = [] \<or> \<not> cmp k (last (rev ?d))"
  proof (cases "?d = []")
    case True
    then show ?thesis by simp
  next
    case False
    then have "\<not> cmp k (hd ?d)" by (rule hd_dropWhile)
    with False show ?thesis by (simp add: last_rev)
  qed
  ultimately show ?thesis unfolding insert_back_def by blast
qed

lemma mset_insert_back: "mset (insert_back cmp k xs) = add_mset k (mset xs)"
  using insert_back_split [of xs cmp k] by auto

lemma successively_insert_back:
  assumes "\<forall>x y. cmp x y \<longrightarrow> \<not> cmp y x" and "successively (\<lambda>x y. \<not> cmp y x) xs"
  shows "successively (\<lambda>x y. \<not> cmp y x) (insert_back cmp k xs)"
proof -
  from insert_back_split [of xs cmp k] obtain a b where x: "xs = a @ b"
    and i: "insert_back cmp k xs = a @ k # b" and b: "\<forall>x \<in> set b. cmp k x"
    and a: "a = [] \<or> \<not> cmp k (last a)" by blast
  from assms(2) x have sa: "successively (\<lambda>x y. \<not> cmp y x) a"
    and sb: "successively (\<lambda>x y. \<not> cmp y x) b" by (simp_all add: successively_append_iff)
  have "b = [] \<or> \<not> cmp (hd b) k" using b assms(1) by (cases b) auto
  with sa sb a show ?thesis
    unfolding i by (auto simp: successively_append_iff successively_Cons)
qed

lemma filter_insert_back:
  assumes "strict_weak_order cmp"
  shows "filter (equal_under cmp e) (insert_back cmp k xs) = filter (equal_under cmp e) (xs @ [k])"
proof -
  from insert_back_split [of xs cmp k] obtain a b where x: "xs = a @ b"
    and i: "insert_back cmp k xs = a @ k # b" and b: "\<forall>x \<in> set b. cmp k x" by blast
  show ?thesis
  proof (cases "equal_under cmp e k")
    case False
    then show ?thesis by (subst i, subst x) simp
  next
    case True
    have "\<not> equal_under cmp e y" if "y \<in> set b" for y
    proof
      assume "equal_under cmp e y"
      moreover from True have "equal_under cmp k e" by (auto simp: equal_under_def)
      ultimately have "equal_under cmp k y"
        using assms unfolding strict_weak_order_def by blast
      moreover have "cmp k y" using b that by simp
      ultimately show False by (simp add: equal_under_def)
    qed
    then have "filter (equal_under cmp e) b = []" by (simp add: filter_empty_conv)
    with True show ?thesis by (subst i, subst x) simp
  qed
qed

subsection \<open>insertionSort: sorted, a permutation, stable\<close>

lemma foldl_insert_back:
  assumes "strict_weak_order cmp"
  shows "mset (foldl (\<lambda>acc z. insert_back cmp z acc) xs zs) = mset xs + mset zs \<and>
         (successively (\<lambda>x y. \<not> cmp y x) xs \<longrightarrow>
            successively (\<lambda>x y. \<not> cmp y x) (foldl (\<lambda>acc z. insert_back cmp z acc) xs zs)) \<and>
         filter (equal_under cmp e) (foldl (\<lambda>acc z. insert_back cmp z acc) xs zs) =
           filter (equal_under cmp e) (xs @ zs)"
proof (induction zs arbitrary: xs)
  case Nil
  show ?case by simp
next
  case (Cons z zs)
  have asym: "\<forall>x y. cmp x y \<longrightarrow> \<not> cmp y x"
    using assms unfolding strict_weak_order_def by blast
  from Cons [of "insert_back cmp z xs"] show ?case
    by (simp add: mset_insert_back successively_insert_back [OF asym]
        filter_insert_back [OF assms])
qed

lemma insertionSort_sorted_stable:
  assumes "strict_weak_order cmp" and "length arr \<le> 2 ^ 31"
  shows "\<exists>ys. insertionSort cmp arr = Some ys \<and> mset ys = mset arr \<and> isSorted cmp ys \<and>
           stable_output cmp arr ys"
proof (cases arr)
  case Nil
  then show ?thesis
    by (simp add: insertionSort_foldl isSorted_iff stable_output_def)
next
  case (Cons x zs)
  let ?ys = "foldl (\<lambda>acc z. insert_back cmp z acc) [x] zs"
  have r: "insertionSort cmp arr = Some ?ys"
    using insertionSort_foldl [OF assms(2), of cmp] Cons by simp
  have m: "mset ?ys = mset arr" and s: "isSorted cmp ?ys"
    using foldl_insert_back [OF assms(1), of "[x]" zs] Cons by (simp_all add: isSorted_iff)
  have "filter (equal_under cmp e) ?ys = filter (equal_under cmp e) arr" for e
    using foldl_insert_back [OF assms(1), of "[x]" zs e] Cons by simp
  then have "stable_output cmp arr ?ys" by (simp add: stable_output_def)
  with r m s show ?thesis by blast
qed

subsection \<open>Strict weak orders, and one pass of bubbleSort\<close>

lemma size_t_sub_exact: "n < 2 ^ 64 \<Longrightarrow> b \<le> n \<Longrightarrow> size_t_sub n b = n - b"
proof -
  assume n: "n < 2 ^ 64" and b: "b \<le> n"
  from b have "n + 2 ^ 64 - b = (n - b) + 2 ^ 64" by simp
  moreover from n have "n - b < 2 ^ 64" by simp
  ultimately show ?thesis unfolding size_t_sub_def by (metis mod_add_self2 mod_less)
qed

lemma swo_asym: "strict_weak_order cmp \<Longrightarrow> cmp x y \<Longrightarrow> \<not> cmp y x"
  unfolding strict_weak_order_def by blast

lemma swo_le_trans:
  assumes "strict_weak_order cmp" and "\<not> cmp y x" and "\<not> cmp z y"
  shows "\<not> cmp z x"
proof
  assume zx: "cmp z x"
  from assms(1) have tr: "\<And>a b c. cmp a b \<Longrightarrow> cmp b c \<Longrightarrow> cmp a c"
    and eq: "\<And>a b c. equal_under cmp a b \<Longrightarrow> equal_under cmp b c \<Longrightarrow> equal_under cmp a c"
    unfolding strict_weak_order_def by blast+
  show False
  proof (cases "cmp y z")
    case True
    have "cmp y x" using True zx by (rule tr)
    with assms(2) show False by simp
  next
    case False
    with assms(3) have yz: "equal_under cmp z y" by (simp add: equal_under_def)
    show False
    proof (cases "cmp x y")
      case True
      have "cmp z y" using zx True by (rule tr)
      with assms(3) show False by simp
    next
      case False
      with assms(2) have "equal_under cmp y x" by (simp add: equal_under_def)
      with yz have "equal_under cmp z x" by (rule eq)
      with zx show False by (simp add: equal_under_def)
    qed
  qed
qed

lemma bubble_length [simp]: "length (bubble cmp xs) = length xs"
  by (induction cmp xs rule: bubble.induct) auto

lemma bubble_mset [simp]: "mset (bubble cmp xs) = mset xs"
  by (induction cmp xs rule: bubble.induct) auto

lemma bubble_not_Nil [simp]: "(bubble cmp xs = []) = (xs = [])"
  by (metis bubble_length length_0_conv)

lemma bubble_last_greatest:
  "strict_weak_order cmp \<Longrightarrow> x \<in> set xs \<Longrightarrow> \<not> cmp (last (bubble cmp xs)) x"
proof (induction cmp xs arbitrary: x rule: bubble.induct)
  case (3 cmp a b ys)
  note swo = "3.prems"(1)
  show ?case
  proof (cases "cmp b a")
    case True
    then have l: "last (bubble cmp (a # b # ys)) = last (bubble cmp (a # ys))" by simp
    have top: "\<not> cmp (last (bubble cmp (a # ys))) a"
      using "3.IH"(1) [OF True swo, of a] by simp
    show ?thesis
    proof (cases "x = b")
      case xb: True
      have "\<not> cmp a b" using swo True by (rule swo_asym)
      with swo have "\<not> cmp (last (bubble cmp (a # ys))) b" using top by (rule swo_le_trans)
      with l xb show ?thesis by simp
    next
      case False
      with "3.prems" have "x \<in> set (a # ys)" by auto
      with "3.IH"(1) [OF True swo] l show ?thesis by simp
    qed
  next
    case False
    then have l: "last (bubble cmp (a # b # ys)) = last (bubble cmp (b # ys))" by simp
    have top: "\<not> cmp (last (bubble cmp (b # ys))) b"
      using "3.IH"(2) [OF False swo, of b] by simp
    show ?thesis
    proof (cases "x = a")
      case xa: True
      from swo False top have "\<not> cmp (last (bubble cmp (b # ys))) a" by (rule swo_le_trans)
      with l xa show ?thesis by simp
    next
      case xa: False
      with "3.prems" have "x \<in> set (b # ys)" by auto
      with "3.IH"(2) [OF False swo] l show ?thesis by simp
    qed
  qed
next
  case (1 cmp)
  then show ?case by simp
next
  case (2 cmp v)
  then show ?case by (auto simp: strict_weak_order_def)
qed

lemma bubble_no_swaps:
  "\<not> bubble_swaps cmp xs \<Longrightarrow> bubble cmp xs = xs \<and> successively (\<lambda>x y. \<not> cmp y x) xs"
  by (induction cmp xs rule: bubble.induct) (auto split: if_splits)

subsection \<open>bubbleSort: the inner loop\<close>

lemma swap_adjacent:
  "swap (pre @ x # y # rest) (length pre) (length pre + 1) = pre @ y # x # rest"
  by (simp add: swap_def nth_append list_update_append)

lemma bubble_inner_pass:
  "mid \<noteq> [] \<Longrightarrow> length pre + length mid = size_t_sub (size_t_sub n i) 1 + 1 \<Longrightarrow>
   bubble_inner cmp n i (length pre) (pre @ mid @ suf) sw =
     Some (pre @ bubble cmp mid @ suf, sw \<or> bubble_swaps cmp mid)"
proof (induction cmp mid arbitrary: pre sw rule: bubble.induct)
  case (3 cmp x y ys)
  let ?B = "size_t_sub (size_t_sub n i) 1"
  from "3.prems" have j: "length pre < ?B" by simp
  have in_range: "length pre + 1 < length (pre @ (x # y # ys) @ suf)" by simp
  have at0: "(pre @ (x # y # ys) @ suf) ! length pre = x" by (simp add: nth_append)
  have at1: "(pre @ (x # y # ys) @ suf) ! (length pre + 1) = y" by (simp add: nth_append)
  show ?case
  proof (cases "cmp y x")
    case True
    have "bubble_inner cmp n i (length pre) (pre @ (x # y # ys) @ suf) sw =
            bubble_inner cmp n i (length pre + 1)
              (swap (pre @ (x # y # ys) @ suf) (length pre) (length pre + 1)) True"
      using j in_range True at0 at1 by (subst bubble_inner.simps) (simp only: if_True)
    also have "swap (pre @ (x # y # ys) @ suf) (length pre) (length pre + 1) =
                 (pre @ [y]) @ (x # ys) @ suf"
      using swap_adjacent [of pre x y "ys @ suf"] by simp
    also have "bubble_inner cmp n i (length pre + 1) ((pre @ [y]) @ (x # ys) @ suf) True =
                 Some ((pre @ [y]) @ bubble cmp (x # ys) @ suf, True \<or> bubble_swaps cmp (x # ys))"
      using "3.IH"(1) [OF True, of "pre @ [y]" True] "3.prems" by simp
    finally show ?thesis using True by simp
  next
    case False
    have "bubble_inner cmp n i (length pre) (pre @ (x # y # ys) @ suf) sw =
            bubble_inner cmp n i (length pre + 1) ((pre @ [x]) @ (y # ys) @ suf) sw"
      using j in_range False at0 at1 by (subst bubble_inner.simps) (simp only: if_True if_False, simp)
    also have "\<dots> = Some ((pre @ [x]) @ bubble cmp (y # ys) @ suf, sw \<or> bubble_swaps cmp (y # ys))"
      using "3.IH"(2) [OF False, of "pre @ [x]" sw] "3.prems" by simp
    finally show ?thesis using False by simp
  qed
next
  case (1 cmp)
  then show ?case by simp
next
  case (2 cmp v)
  then have "\<not> length pre < size_t_sub (size_t_sub n i) 1" by simp
  then show ?case by (subst bubble_inner.simps) simp
qed

subsection \<open>bubbleSort on a vector that is not empty\<close>

lemma successively_join:
  assumes "successively (\<lambda>x y. \<not> cmp y x) pre"
    and "sorted_wrt (\<lambda>x y. \<not> cmp y x) suf"
    and "\<forall>x \<in> set pre. \<forall>y \<in> set suf. \<not> cmp y x"
  shows "successively (\<lambda>x y. \<not> cmp y x) (pre @ suf)"
proof -
  have "successively (\<lambda>x y. \<not> cmp y x) suf"
    using assms(2) by (rule successively_if_sorted_wrt)
  moreover have "pre = [] \<or> suf = [] \<or> \<not> cmp (hd suf) (last pre)"
    using assms(3) by (metis hd_in_set last_in_set)
  ultimately show ?thesis using assms(1) by (simp add: successively_append_iff)
qed

lemma bubble_outer_sorted:
  assumes swo: "strict_weak_order cmp" and n: "n < 2 ^ 64"
  shows "length pre = Suc m \<Longrightarrow> n = length (pre @ suf) \<Longrightarrow> i + length pre = n \<Longrightarrow>
         sorted_wrt (\<lambda>x y. \<not> cmp y x) suf \<Longrightarrow>
         \<forall>x \<in> set pre. \<forall>y \<in> set suf. \<not> cmp y x \<Longrightarrow>
         \<exists>ys. bubble_outer cmp n i (pre @ suf) = Some ys \<and> mset ys = mset (pre @ suf) \<and>
              successively (\<lambda>x y. \<not> cmp y x) ys"
proof (induction m arbitrary: pre suf i)
  case 0
  then obtain p where p: "pre = [p]" by (cases pre) auto
  from 0 have "i = n - 1" by simp
  moreover have "size_t_sub n 1 = n - 1" using n 0 by (intro size_t_sub_exact) simp_all
  ultimately have "bubble_outer cmp n i (pre @ suf) = Some (pre @ suf)"
    by (subst bubble_outer.simps) simp
  moreover have "successively (\<lambda>x y. \<not> cmp y x) (pre @ suf)"
    using p 0 by (intro successively_join) simp_all
  ultimately show ?case by simp
next
  case (Suc m)
  have b1: "size_t_sub n 1 = n - 1" using n Suc.prems by (intro size_t_sub_exact) simp_all
  have "size_t_sub n i = n - i" using n Suc.prems by (intro size_t_sub_exact) simp_all
  moreover have "size_t_sub (n - i) 1 = n - i - 1"
    using n Suc.prems by (intro size_t_sub_exact) simp_all
  ultimately have b2: "size_t_sub (size_t_sub n i) 1 = Suc m" using Suc.prems by simp
  have i: "i < size_t_sub n 1" using b1 Suc.prems by simp
  have ne: "pre \<noteq> []" using Suc.prems by auto
  have pass: "bubble_inner cmp n i 0 (pre @ suf) False =
                Some (bubble cmp pre @ suf, bubble_swaps cmp pre)"
    using bubble_inner_pass [of pre "[]" n i cmp suf False] ne b2 Suc.prems by simp
  show ?case
  proof (cases "bubble_swaps cmp pre")
    case False
    then have "bubble_outer cmp n i (pre @ suf) = Some (bubble cmp pre @ suf)"
      using i pass by (subst bubble_outer.simps) simp
    moreover from False have "bubble cmp pre = pre"
      and "successively (\<lambda>x y. \<not> cmp y x) pre" using bubble_no_swaps by blast+
    moreover have "successively (\<lambda>x y. \<not> cmp y x) (pre @ suf)"
      using \<open>successively (\<lambda>x y. \<not> cmp y x) pre\<close> Suc.prems(4,5) by (rule successively_join)
    ultimately show ?thesis by simp
  next
    case True
    let ?b = "bubble cmp pre"
    let ?pre = "butlast ?b" and ?suf = "last ?b # suf"
    have bne: "?b \<noteq> []" using ne by simp
    have split: "?b @ suf = ?pre @ ?suf" using bne by simp
    have step: "bubble_outer cmp n i (pre @ suf) = bubble_outer cmp n (i + 1) (?pre @ ?suf)"
      using i pass True split by (subst bubble_outer.simps) simp
    have set_b: "set ?b = set pre" by (metis bubble_mset set_mset_mset)
    have last_in: "last ?b \<in> set pre" using bne set_b last_in_set by blast
    have top: "\<forall>x \<in> set pre. \<not> cmp (last ?b) x"
      using bubble_last_greatest [OF swo] by blast
    have 1: "length ?pre = Suc m" using Suc.prems by simp
    have 2: "n = length (?pre @ ?suf)" using Suc.prems bne by (simp flip: split)
    have 3: "i + 1 + length ?pre = n" using Suc.prems by simp
    have 4: "sorted_wrt (\<lambda>x y. \<not> cmp y x) ?suf" using Suc.prems(4,5) last_in by simp
    have "set ?pre \<subseteq> set pre" using set_b by (metis in_set_butlastD subsetI)
    then have 5: "\<forall>x \<in> set ?pre. \<forall>y \<in> set ?suf. \<not> cmp y x"
      using top Suc.prems(5) by auto
    from Suc.IH [OF 1 2 3 4 5] obtain ys where
      "bubble_outer cmp n (i + 1) (?pre @ ?suf) = Some ys" and "mset ys = mset (?pre @ ?suf)"
      and "successively (\<lambda>x y. \<not> cmp y x) ys" by blast
    moreover have "mset (?pre @ ?suf) = mset (pre @ suf)"
      by (simp flip: split)
    ultimately show ?thesis using step by simp
  qed
qed

lemma bubbleSort_sorted:
  assumes "strict_weak_order cmp" and "arr \<noteq> []" and "length arr < 2 ^ 64"
  shows "\<exists>ys. bubbleSort cmp arr = Some ys \<and> mset ys = mset arr \<and> isSorted cmp ys"
proof -
  from assms(2) obtain m where m: "length arr = Suc m" by (cases arr) auto
  from bubble_outer_sorted [OF assms(1,3), of arr m "[]" 0] m show ?thesis
    by (simp add: bubbleSort_def isSorted_iff)
qed

subsection \<open>selectionSort\<close>

lemma swap_nth:
  "i < length arr \<Longrightarrow> j < length arr \<Longrightarrow>
   swap arr i j ! x = (if x = j then arr ! i else if x = i then arr ! j else arr ! x)"
  by (auto simp: swap_def nth_list_update)

lemma swap_length [simp]: "length (swap arr i j) = length arr"
  by (simp add: swap_def)

lemma swap_mset: "i < length arr \<Longrightarrow> j < length arr \<Longrightarrow> mset (swap arr i j) = mset arr"
  unfolding swap_def by (rule mset_swap)

lemma selection_inner_least:
  assumes swo: "strict_weak_order cmp" and n: "n = length arr"
  shows "d = n - j \<Longrightarrow> i \<le> m \<Longrightarrow> m < j \<Longrightarrow> j \<le> n \<Longrightarrow>
         \<forall>k. i \<le> k \<and> k < j \<longrightarrow> \<not> cmp (arr ! k) (arr ! m) \<Longrightarrow>
         \<exists>m'. selection_inner cmp n arr j m = Some m' \<and> i \<le> m' \<and> m' < n \<and>
              (\<forall>k. i \<le> k \<and> k < n \<longrightarrow> \<not> cmp (arr ! k) (arr ! m'))"
proof (induction d arbitrary: j m)
  case 0
  then have "j = n" by simp
  with 0 show ?case by (subst selection_inner.simps) simp
next
  case (Suc d)
  then have j: "j < n" by simp
  show ?case
  proof (cases "cmp (arr ! j) (arr ! m)")
    case True
    have step: "selection_inner cmp n arr j m = selection_inner cmp n arr (j + 1) j"
      using j n Suc.prems True by (subst selection_inner.simps) simp
    have "\<forall>k. i \<le> k \<and> k < j + 1 \<longrightarrow> \<not> cmp (arr ! k) (arr ! j)"
    proof (intro allI impI)
      fix k assume k: "i \<le> k \<and> k < j + 1"
      show "\<not> cmp (arr ! k) (arr ! j)"
      proof (cases "k = j")
        case True
        then show ?thesis using swo by (auto simp: strict_weak_order_def)
      next
        case False
        with k Suc.prems have "\<not> cmp (arr ! k) (arr ! m)" by simp
        moreover have "\<not> cmp (arr ! m) (arr ! j)" using swo True by (rule swo_asym)
        ultimately show ?thesis using swo swo_le_trans by metis
      qed
    qed
    moreover have "d = n - (j + 1)" "i \<le> j" "j < j + 1" "j + 1 \<le> n"
      using Suc.prems j by simp_all
    ultimately show ?thesis using Suc.IH [of "j + 1" j] step by simp
  next
    case False
    have step: "selection_inner cmp n arr j m = selection_inner cmp n arr (j + 1) m"
      using j n Suc.prems False by (subst selection_inner.simps) simp
    have "\<forall>k. i \<le> k \<and> k < j + 1 \<longrightarrow> \<not> cmp (arr ! k) (arr ! m)"
      using Suc.prems False by (metis Suc_eq_plus1 less_Suc_eq)
    moreover have "d = n - (j + 1)" "i \<le> m" "m < j + 1" "j + 1 \<le> n"
      using Suc.prems j by simp_all
    ultimately show ?thesis using Suc.IH [of "j + 1" m] step by simp
  qed
qed

lemma selection_outer_sorted:
  assumes swo: "strict_weak_order cmp" and n: "n < 2 ^ 64"
  shows "d = n - 1 - i \<Longrightarrow> n = length arr \<Longrightarrow> i < n \<Longrightarrow>
         \<forall>a b. a < b \<and> b < n \<and> a < i \<longrightarrow> \<not> cmp (arr ! b) (arr ! a) \<Longrightarrow>
         \<exists>ys. selection_outer cmp n i arr = Some ys \<and> mset ys = mset arr \<and>
              sorted_wrt (\<lambda>x y. \<not> cmp y x) ys"
proof (induction d arbitrary: i arr)
  case 0
  have b1: "size_t_sub n 1 = n - 1" using n 0 by (intro size_t_sub_exact) simp_all
  from 0 have i: "i = n - 1" by simp
  then have "selection_outer cmp n i arr = Some arr"
    using b1 by (subst selection_outer.simps) simp
  moreover have "sorted_wrt (\<lambda>x y. \<not> cmp y x) arr"
    unfolding sorted_wrt_iff_nth_less using 0 i by auto
  ultimately show ?case by simp
next
  case (Suc d)
  have b1: "size_t_sub n 1 = n - 1" using n Suc.prems by (intro size_t_sub_exact) simp_all
  from Suc.prems have i: "i < n - 1" by simp
  have irr: "\<not> cmp (arr ! i) (arr ! i)" using swo by (simp add: strict_weak_order_def)
  have p: "\<forall>k. i \<le> k \<and> k < i + 1 \<longrightarrow> \<not> cmp (arr ! k) (arr ! i)"
    using irr by (metis Suc_eq_plus1 le_less_Suc_eq)
  have "i + 1 \<le> n" using i by simp
  with p have "\<exists>m'. selection_inner cmp n arr (i + 1) i = Some m' \<and> i \<le> m' \<and> m' < n \<and>
              (\<forall>k. i \<le> k \<and> k < n \<longrightarrow> \<not> cmp (arr ! k) (arr ! m'))"
    by (intro selection_inner_least [OF swo Suc.prems(2) refl]) simp_all
  then obtain m where inner: "selection_inner cmp n arr (i + 1) i = Some m" and im: "i \<le> m"
    and mn: "m < n" and least: "\<forall>k. i \<le> k \<and> k < n \<longrightarrow> \<not> cmp (arr ! k) (arr ! m)"
    by (elim exE conjE) (rule that)
  let ?arr = "if m \<noteq> i then swap arr i m else arr"
  have il: "i < length arr" and ml: "m < length arr" using Suc.prems mn by simp_all
  have step: "selection_outer cmp n i arr = selection_outer cmp n (i + 1) ?arr"
    using i b1 inner il ml by (subst selection_outer.simps) simp
  have nth: "?arr ! x = (if x = m then arr ! i else if x = i then arr ! m else arr ! x)" for x
    using swap_nth [OF il ml] by auto
  have ms: "mset ?arr = mset arr" using swap_mset [OF il ml] by simp
  have inv: "\<forall>a b. a < b \<and> b < n \<and> a < i + 1 \<longrightarrow> \<not> cmp (?arr ! b) (?arr ! a)"
  proof (intro allI impI)
    fix a b assume ab: "a < b \<and> b < n \<and> a < i + 1"
    show "\<not> cmp (?arr ! b) (?arr ! a)"
    proof (cases "a = i")
      case True
      then have "?arr ! a = arr ! m" by (simp only: nth) simp
      moreover have "b \<noteq> i" using ab True by simp
      then have "?arr ! b = arr ! b \<or> ?arr ! b = arr ! i" by (simp only: nth) auto
      moreover have "\<not> cmp (arr ! b) (arr ! m)" "\<not> cmp (arr ! i) (arr ! m)"
        using least ab True il Suc.prems by auto
      ultimately show ?thesis by auto
    next
      case False
      with ab have ai: "a < i" by simp
      with im have "?arr ! a = arr ! a" by (simp only: nth) auto
      moreover have "\<exists>b'. a < b' \<and> b' < n \<and> ?arr ! b = arr ! b'"
      proof (cases "b = m")
        case True
        then have "?arr ! b = arr ! i" by (simp only: nth) simp
        moreover have "i < n" using Suc.prems by simp
        ultimately show ?thesis using ai by blast
      next
        case bm: False
        show ?thesis
        proof (cases "b = i")
          case True
          with bm have "?arr ! b = arr ! m" by (simp only: nth) simp
          moreover have "a < m" using ai im by simp
          ultimately show ?thesis using mn by blast
        next
          case False
          with bm have "?arr ! b = arr ! b" by (simp only: nth) simp
          with ab show ?thesis by blast
        qed
      qed
      ultimately show ?thesis using Suc.prems(4) ai by auto
    qed
  qed
  have "d = n - 1 - (i + 1)" "n = length ?arr" "i + 1 < n" using Suc.prems i by auto
  from Suc.IH [OF this inv] ms step show ?case by simp
qed

lemma selectionSort_sorted:
  assumes "strict_weak_order cmp" and "arr \<noteq> []" and "length arr < 2 ^ 64"
  shows "\<exists>ys. selectionSort cmp arr = Some ys \<and> mset ys = mset arr \<and> isSorted cmp ys"
proof -
  from selection_outer_sorted [OF assms(1,3), of _ 0 arr] assms(2)
  obtain ys where "selectionSort cmp arr = Some ys" and "mset ys = mset arr"
    and "sorted_wrt (\<lambda>x y. \<not> cmp y x) ys" by (auto simp: selectionSort_def)
  then show ?thesis by (auto simp: isSorted_iff intro: successively_if_sorted_wrt)
qed

text \<open>On the empty vector the bound of the outer loop wraps to \<open>2 ^ 64 - 1\<close>; the inner
  loop is never entered, no element is read, and after all these rounds the vector is
  returned as it is.\<close>

lemma selection_outer_empty:
  "d = 2 ^ 64 - 1 - i \<Longrightarrow> selection_outer cmp 0 i [] = Some []"
proof (induction d arbitrary: i)
  case 0
  then show ?case by (subst selection_outer.simps) (simp add: size_t_sub_def)
next
  case (Suc d)
  then have "i < 2 ^ 64 - 1" by simp
  moreover have "selection_inner cmp 0 [] (i + 1) i = Some i"
    by (subst selection_inner.simps) simp
  moreover have "selection_outer cmp 0 (i + 1) [] = Some []"
    using Suc.prems by (intro Suc.IH) simp
  ultimately show ?case by (subst selection_outer.simps) (simp add: size_t_sub_def)
qed

lemma selectionSort_empty: "selectionSort cmp [] = Some []"
  by (simp add: selectionSort_def selection_outer_empty)

subsection \<open>Merging two sorted lists\<close>

lemma slice_Cons: "a < b \<Longrightarrow> b \<le> length arr \<Longrightarrow> slice arr a b = arr ! a # slice arr (Suc a) b"
proof -
  assume a: "a < b" and b: "b \<le> length arr"
  then have "drop a arr = arr ! a # drop (Suc a) arr" by (simp add: Cons_nth_drop_Suc)
  moreover from a obtain k where "b - a = Suc k" and "b - Suc a = k" by (cases "b - a") auto
  ultimately show ?thesis by (simp add: slice_def)
qed

lemma slice_Nil [simp]: "b \<le> a \<Longrightarrow> slice arr a b = []"
  by (simp add: slice_def)

lemma slice_length [simp]: "b \<le> length arr \<Longrightarrow> length (slice arr a b) = b - a"
  by (simp add: slice_def)

lemma slice_append:
  "a \<le> b \<Longrightarrow> b \<le> c \<Longrightarrow> slice arr a b @ slice arr b c = slice arr a c"
proof -
  assume "a \<le> b" and "b \<le> c"
  then have "c - a = (b - a) + (c - b)" and "drop b arr = drop (b - a) (drop a arr)" by simp_all
  then show ?thesis unfolding slice_def by (metis take_add)
qed

lemma merge_lists_mset [simp]: "mset (merge_lists cmp xs ys) = mset xs + mset ys"
  by (induction cmp xs ys rule: merge_lists.induct) auto

lemma merge_lists_length [simp]: "length (merge_lists cmp xs ys) = length xs + length ys"
  by (induction cmp xs ys rule: merge_lists.induct) auto

lemma merge_lists_sorted:
  "strict_weak_order cmp \<Longrightarrow> sorted_wrt (\<lambda>x y. \<not> cmp y x) xs \<Longrightarrow>
   sorted_wrt (\<lambda>x y. \<not> cmp y x) ys \<Longrightarrow> sorted_wrt (\<lambda>x y. \<not> cmp y x) (merge_lists cmp xs ys)"
proof (induction cmp xs ys rule: merge_lists.induct)
  case (1 cmp x xs y ys)
  note swo = "1.prems"(1)
  have set: "set (merge_lists cmp as bs) = set as \<union> set bs" for as bs
    by (metis merge_lists_mset set_mset_mset set_mset_union)
  show ?case
  proof (cases "cmp x y")
    case True
    have xy: "\<not> cmp y x" using swo True by (rule swo_asym)
    have "\<not> cmp z x" if "z \<in> set ys" for z
    proof -
      from that "1.prems"(3) have "\<not> cmp z y" by simp
      with swo xy show ?thesis by (rule swo_le_trans)
    qed
    then have "\<forall>z \<in> set (merge_lists cmp xs (y # ys)). \<not> cmp z x"
      using xy "1.prems"(2) by (auto simp: set)
    moreover have "sorted_wrt (\<lambda>x y. \<not> cmp y x) (merge_lists cmp xs (y # ys))"
      using "1.IH"(1) [OF True swo] "1.prems" by simp
    ultimately show ?thesis using True by simp
  next
    case False
    have "\<not> cmp z y" if "z \<in> set xs" for z
    proof -
      from that "1.prems"(2) have "\<not> cmp z x" by simp
      with swo False show ?thesis by (rule swo_le_trans)
    qed
    then have "\<forall>z \<in> set (merge_lists cmp (x # xs) ys). \<not> cmp z y"
      using False "1.prems"(3) by (auto simp: set)
    moreover have "sorted_wrt (\<lambda>x y. \<not> cmp y x) (merge_lists cmp (x # xs) ys)"
      using "1.IH"(2) [OF False swo] "1.prems" by simp
    ultimately show ?thesis using False by simp
  qed
qed simp_all

lemma vec_at_nth: "0 \<le> i \<Longrightarrow> nat i < length arr \<Longrightarrow> vec_at arr i = Some (arr ! nat i)"
  by (simp add: vec_at_def)

lemma merge_rest_copy:
  "0 \<le> i \<Longrightarrow> i \<le> last_i + 1 \<Longrightarrow> nat (last_i + 1) \<le> length arr \<Longrightarrow>
   int (length temp) + (last_i + 1 - i) \<le> cap \<Longrightarrow>
   merge_rest arr last_i cap i temp = Some (temp @ slice arr (nat i) (nat (last_i + 1)))"
proof (induction arr last_i cap i temp rule: merge_rest.induct)
  case (1 arr last_i cap i temp)
  show ?case
  proof (cases "i \<le> last_i")
    case False
    with "1.prems" have "i = last_i + 1" by simp
    then show ?thesis by (subst merge_rest.simps) simp
  next
    case True
    have il: "nat i < length arr" using True "1.prems" by linarith
    have at: "vec_at arr i = Some (arr ! nat i)" using "1.prems"(1) il by (rule vec_at_nth)
    have push: "push_temp cap temp (arr ! nat i) = Some (temp @ [arr ! nat i])"
      using True "1.prems" by (simp add: push_temp_def)
    have n1: "nat (i + 1) = Suc (nat i)" using "1.prems"(1) by linarith
    have lt: "nat i < nat (last_i + 1)" using True "1.prems"(1) by linarith
    have sl: "slice arr (nat i) (nat (last_i + 1)) =
                 arr ! nat i # slice arr (Suc (nat i)) (nat (last_i + 1))"
      using lt "1.prems"(3) by (rule slice_Cons)
    have step: "merge_rest arr last_i cap i temp =
            merge_rest arr last_i cap (i + 1) (temp @ [arr ! nat i])"
      by (subst merge_rest.simps) (simp add: True at push)
    have c: "int (length (temp @ [arr ! nat i])) + (last_i + 1 - (i + 1)) \<le> cap"
      using "1.prems"(4) by simp
    have "0 \<le> i + 1" "i + 1 \<le> last_i + 1" using True "1.prems"(1) by linarith+
    then have "merge_rest arr last_i cap (i + 1) (temp @ [arr ! nat i]) =
        Some ((temp @ [arr ! nat i]) @ slice arr (nat (i + 1)) (nat (last_i + 1)))"
      using "1.prems"(3) c by (rule "1.IH" [OF True at push])
    with step show ?thesis by (simp only: sl n1) simp
  qed
qed

subsection \<open>mergeSort: the loops of the merge\<close>

lemma merge_lists_one_empty: "xs = [] \<or> ys = [] \<Longrightarrow> merge_lists cmp xs ys = xs @ ys"
  by (cases xs; cases ys) auto

lemma merge_both_then_rest:
  "0 \<le> i \<Longrightarrow> 0 \<le> j \<Longrightarrow> i \<le> mid + 1 \<Longrightarrow> j \<le> hi + 1 \<Longrightarrow>
   nat (mid + 1) \<le> length arr \<Longrightarrow> nat (hi + 1) \<le> length arr \<Longrightarrow>
   int (length temp) + (mid + 1 - i) + (hi + 1 - j) \<le> cap \<Longrightarrow>
   \<exists>i' j' t t2. merge_both cmp arr mid hi cap i j temp = Some (i', j', t) \<and>
     merge_rest arr mid cap i' t = Some t2 \<and>
     merge_rest arr hi cap j' t2 =
       Some (temp @ merge_lists cmp (slice arr (nat i) (nat (mid + 1)))
                                    (slice arr (nat j) (nat (hi + 1))))"
proof (induction cmp arr mid hi cap i j temp rule: merge_both.induct)
  case (1 cmp arr mid hi cap i j temp)
  let ?L = "slice arr (nat i) (nat (mid + 1))" and ?R = "slice arr (nat j) (nat (hi + 1))"
  show ?case
  proof (cases "i \<le> mid \<and> j \<le> hi")
    case False
    then have r: "merge_both cmp arr mid hi cap i j temp = Some (i, j, temp)"
      by (subst merge_both.simps) (simp only: if_False)
    have c1: "int (length temp) + (mid + 1 - i) \<le> cap" using "1.prems" by linarith
    have r1: "merge_rest arr mid cap i temp = Some (temp @ ?L)"
      using "1.prems"(1,3,5) c1 by (rule merge_rest_copy)
    have "int (length ?L) = mid + 1 - i" using "1.prems" by simp
    then have c2: "int (length (temp @ ?L)) + (hi + 1 - j) \<le> cap" using "1.prems"(7) by simp
    have r2: "merge_rest arr hi cap j (temp @ ?L) = Some ((temp @ ?L) @ ?R)"
      using "1.prems"(2,4,6) c2 by (rule merge_rest_copy)
    from False "1.prems" have "i = mid + 1 \<or> j = hi + 1" by linarith
    then have "?L = [] \<or> ?R = []" by auto
    then have "merge_lists cmp ?L ?R = ?L @ ?R" by (rule merge_lists_one_empty)
    with r r1 r2 show ?thesis by simp
  next
    case True
    let ?x = "arr ! nat i" and ?y = "arr ! nat j"
    have il: "nat i < nat (mid + 1)" and jl: "nat j < nat (hi + 1)"
      using True "1.prems"(1,2) by linarith+
    have "nat i < length arr" using il "1.prems"(5) by linarith
    with "1.prems"(1) have atx: "vec_at arr i = Some ?x" by (rule vec_at_nth)
    have "nat j < length arr" using jl "1.prems"(6) by linarith
    with "1.prems"(2) have aty: "vec_at arr j = Some ?y" by (rule vec_at_nth)
    have ni: "nat (i + 1) = Suc (nat i)" using "1.prems"(1) by linarith
    have nj: "nat (j + 1) = Suc (nat j)" using "1.prems"(2) by linarith
    have L: "?L = ?x # slice arr (nat (i + 1)) (nat (mid + 1))"
      unfolding ni using il "1.prems"(5) by (rule slice_Cons)
    have R: "?R = ?y # slice arr (nat (j + 1)) (nat (hi + 1))"
      unfolding nj using jl "1.prems"(6) by (rule slice_Cons)
    let ?L' = "slice arr (nat (i + 1)) (nat (mid + 1))"
    let ?R' = "slice arr (nat (j + 1)) (nat (hi + 1))"
    have room: "int (length temp) < cap" using True "1.prems"(7) by linarith
    show ?thesis
    proof (cases "cmp ?x ?y")
      case c: True
      have push: "push_temp cap temp ?x = Some (temp @ [?x])"
        using room by (simp add: push_temp_def)
      have step: "merge_both cmp arr mid hi cap i j temp =
                    merge_both cmp arr mid hi cap (i + 1) j (temp @ [?x])"
        by (subst merge_both.simps) (simp add: True atx aty c push)
      have "0 \<le> i + 1" "i + 1 \<le> mid + 1"
        "int (length (temp @ [?x])) + (mid + 1 - (i + 1)) + (hi + 1 - j) \<le> cap"
        using True "1.prems"(1,7) by simp_all
      from "1.IH"(1) [OF True atx aty c push this(1) "1.prems"(2) this(2) "1.prems"(4,5,6) this(3)]
      have ih: "\<exists>i' j' t t2.
          merge_both cmp arr mid hi cap (i + 1) j (temp @ [?x]) = Some (i', j', t) \<and>
          merge_rest arr mid cap i' t = Some t2 \<and>
          merge_rest arr hi cap j' t2 = Some ((temp @ [?x]) @ merge_lists cmp ?L' ?R)" .
      have "merge_lists cmp (?x # ?L') (?y # ?R') = ?x # merge_lists cmp ?L' (?y # ?R')"
        using c by simp
      then have "merge_lists cmp ?L ?R = ?x # merge_lists cmp ?L' ?R"
        by (simp only: L [symmetric] R [symmetric])
      with ih show ?thesis unfolding step by simp
    next
      case c: False
      have push: "push_temp cap temp ?y = Some (temp @ [?y])"
        using room by (simp add: push_temp_def)
      have step: "merge_both cmp arr mid hi cap i j temp =
                    merge_both cmp arr mid hi cap i (j + 1) (temp @ [?y])"
        by (subst merge_both.simps) (simp add: True atx aty c push)
      have "0 \<le> j + 1" "j + 1 \<le> hi + 1"
        "int (length (temp @ [?y])) + (mid + 1 - i) + (hi + 1 - (j + 1)) \<le> cap"
        using True "1.prems"(2,7) by simp_all
      from "1.IH"(2) [OF True atx aty c push "1.prems"(1) this(1) "1.prems"(3) this(2) "1.prems"(5,6) this(3)]
      have ih: "\<exists>i' j' t t2.
          merge_both cmp arr mid hi cap i (j + 1) (temp @ [?y]) = Some (i', j', t) \<and>
          merge_rest arr mid cap i' t = Some t2 \<and>
          merge_rest arr hi cap j' t2 = Some ((temp @ [?y]) @ merge_lists cmp ?L ?R')" .
      have "merge_lists cmp (?x # ?L') (?y # ?R') = ?y # merge_lists cmp (?x # ?L') ?R'"
        using c by simp
      then have "merge_lists cmp ?L ?R = ?y # merge_lists cmp ?L ?R'"
        by (simp only: L [symmetric] R [symmetric])
      with ih show ?thesis unfolding step by simp
    qed
  qed
qed

subsection \<open>mergeSort: the merge\<close>

lemma merge_copy_back:
  "0 \<le> lo \<Longrightarrow> 0 \<le> p \<Longrightarrow> nat p \<le> length temp \<Longrightarrow> nat lo + length temp \<le> length arr \<Longrightarrow>
   merge_copy arr lo temp p =
     Some (take (nat lo + nat p) arr @ drop (nat p) temp @ drop (nat lo + length temp) arr)"
proof (induction arr lo temp p rule: merge_copy.induct)
  case (1 arr lo temp p)
  show ?case
  proof (cases "p < int (length temp)")
    case False
    with "1.prems" have "nat p = length temp" by linarith
    moreover have "merge_copy arr lo temp p = Some arr"
      using False by (subst merge_copy.simps) simp
    ultimately show ?thesis by simp
  next
    case True
    let ?k = "nat lo + nat p"
    let ?arr = "arr[?k := temp ! nat p]"
    have k: "nat (lo + p) = ?k" using "1.prems"(1,2) by linarith
    have kl: "?k < length arr" using True "1.prems" by linarith
    have pl: "nat p < length temp" using True "1.prems"(2) by linarith
    have set: "vec_set arr (lo + p) (temp ! nat p) = Some ?arr"
      using "1.prems"(1,2) kl by (simp add: vec_set_def k)
    have step: "merge_copy arr lo temp p = merge_copy ?arr lo temp (p + 1)"
      by (subst merge_copy.simps) (simp add: True set)
    have n1: "nat (p + 1) = Suc (nat p)" using "1.prems"(2) by linarith
    have "0 \<le> p + 1" "nat (p + 1) \<le> length temp" "nat lo + length temp \<le> length ?arr"
      using "1.prems" pl by (simp_all add: n1)
    from "1.IH" [OF True set "1.prems"(1) this]
    have "merge_copy ?arr lo temp (p + 1) =
            Some (take (Suc ?k) ?arr @ drop (Suc (nat p)) temp @ drop (nat lo + length temp) ?arr)"
      by (simp add: n1)
    moreover have "take (Suc ?k) ?arr = take ?k arr @ [temp ! nat p]"
      using kl by (simp add: take_Suc_conv_app_nth)
    moreover have "drop (nat lo + length temp) ?arr = drop (nat lo + length temp) arr"
      using pl by simp
    moreover have "drop (nat p) temp = temp ! nat p # drop (Suc (nat p)) temp"
      using pl by (simp add: Cons_nth_drop_Suc)
    ultimately show ?thesis using step by simp
  qed
qed

lemma detail_merge_lists:
  assumes "0 \<le> lo" and "lo \<le> mid" and "mid \<le> hi" and "nat hi < length arr"
  shows "detail_merge cmp arr lo mid hi =
           Some (take (nat lo) arr @
                 merge_lists cmp (slice arr (nat lo) (nat (mid + 1)))
                                 (slice arr (nat (mid + 1)) (nat (hi + 1))) @
                 drop (nat (hi + 1)) arr)"
proof -
  let ?cap = "hi - lo + 1"
  let ?L = "slice arr (nat lo) (nat (mid + 1))" and ?R = "slice arr (nat (mid + 1)) (nat (hi + 1))"
  let ?M = "merge_lists cmp ?L ?R"
  have b: "nat (mid + 1) \<le> length arr" "nat (hi + 1) \<le> length arr" using assms by linarith+
  have "0 \<le> mid + 1" "lo \<le> mid + 1" "mid + 1 \<le> hi + 1"
    "int (length ([] :: 'a list)) + (mid + 1 - lo) + (hi + 1 - (mid + 1)) \<le> ?cap"
    using assms by simp_all
  from merge_both_then_rest [OF assms(1) this(1,2,3) b this(4), of cmp]
  obtain i' j' t t2 where 1: "merge_both cmp arr mid hi ?cap lo (mid + 1) [] = Some (i', j', t)"
    and 2: "merge_rest arr mid ?cap i' t = Some t2"
    and 3: "merge_rest arr hi ?cap j' t2 = Some ?M" by auto
  have len: "length ?M = nat (hi + 1) - nat lo" using b assms by simp
  then have fit: "nat lo + length ?M \<le> length arr" using b assms by linarith
  have "merge_copy arr lo ?M 0 =
          Some (take (nat lo + nat 0) arr @ drop (nat 0) ?M @ drop (nat lo + length ?M) arr)"
    using assms(1) _ _ fit by (rule merge_copy_back) simp_all
  moreover have "nat lo + length ?M = nat (hi + 1)" using len assms by linarith
  ultimately have "merge_copy arr lo ?M 0 = Some (take (nat lo) arr @ ?M @ drop (nat (hi + 1)) arr)"
    by simp
  with 1 2 3 show ?thesis by (simp add: detail_merge_def)
qed

lemma take_take_cong: "m \<le> n \<Longrightarrow> take n xs = take n ys \<Longrightarrow> take m xs = take m ys"
  by (metis min.absorb1 take_take)

lemma drop_drop_cong: "n \<le> m \<Longrightarrow> drop n xs = drop n ys \<Longrightarrow> drop m xs = drop m ys"
  by (metis drop_drop le_add_diff_inverse2)

lemma slice_take_cong: "b \<le> n \<Longrightarrow> take n xs = take n ys \<Longrightarrow> slice xs a b = slice ys a b"
proof -
  assume "b \<le> n" and "take n xs = take n ys"
  then have "take b xs = take b ys" by (rule take_take_cong)
  moreover have "slice zs a b = drop a (take b zs)" for zs :: "'a list"
    by (simp add: slice_def drop_take)
  ultimately show ?thesis by simp
qed

lemma slice_drop_cong: "n \<le> a \<Longrightarrow> drop n xs = drop n ys \<Longrightarrow> slice xs a b = slice ys a b"
proof -
  assume "n \<le> a" and "drop n xs = drop n ys"
  then have "drop a xs = drop a ys" by (rule drop_drop_cong)
  then show ?thesis by (simp add: slice_def)
qed

lemma slice_middle:
  "length A = a \<Longrightarrow> a + length M = b \<Longrightarrow> slice (A @ M @ C) a b = M"
  by (auto simp: slice_def)

subsection \<open>mergeSort: sorted and a permutation\<close>

lemma detail_mergeSort_sorted:
  "strict_weak_order cmp \<Longrightarrow> 0 \<le> lo \<Longrightarrow> lo \<le> hi \<Longrightarrow> nat hi < length arr \<Longrightarrow>
   \<exists>ys. detail_mergeSort cmp arr lo hi = Some ys \<and> length ys = length arr \<and>
     take (nat lo) ys = take (nat lo) arr \<and> drop (nat (hi + 1)) ys = drop (nat (hi + 1)) arr \<and>
     mset (slice ys (nat lo) (nat (hi + 1))) = mset (slice arr (nat lo) (nat (hi + 1))) \<and>
     sorted_wrt (\<lambda>x y. \<not> cmp y x) (slice ys (nat lo) (nat (hi + 1)))"
proof (induction cmp arr lo hi rule: detail_mergeSort.induct)
  case (1 cmp arr lo hi)
  note swo = "1.prems"(1)
  show ?case
  proof (cases "lo < hi")
    case False
    with "1.prems" have eq: "hi = lo" by simp
    have r: "detail_mergeSort cmp arr lo hi = Some arr"
      using False by (subst detail_mergeSort.simps) simp
    have "nat (lo + 1) = Suc (nat lo)" using "1.prems"(2) by linarith
    then have "length (slice arr (nat lo) (nat (hi + 1))) = 1"
      using "1.prems" eq by simp
    then obtain x where "slice arr (nat lo) (nat (hi + 1)) = [x]"
      by (metis One_nat_def length_0_conv length_Suc_conv)
    with r show ?thesis by simp
  next
    case True
    let ?mid = "lo + (hi - lo) div 2"
    let ?a = "nat lo" and ?m = "nat (?mid + 1)" and ?b = "nat (hi + 1)"
    have m: "lo \<le> ?mid" "?mid < hi" using True by simp_all
    have am: "?a \<le> ?m" and mb: "?m \<le> ?b" using m "1.prems"(2) by linarith+
    have ml: "nat ?mid < length arr" using m "1.prems" by linarith
    from "1.IH"(1) [OF True swo "1.prems"(2) m(1) ml]
    obtain arr1 where s1: "detail_mergeSort cmp arr lo ?mid = Some arr1"
      and l1: "length arr1 = length arr" and t1: "take ?a arr1 = take ?a arr"
      and d1: "drop ?m arr1 = drop ?m arr"
      and m1: "mset (slice arr1 ?a ?m) = mset (slice arr ?a ?m)"
      and o1: "sorted_wrt (\<lambda>x y. \<not> cmp y x) (slice arr1 ?a ?m)" by auto
    have "0 \<le> ?mid + 1" "?mid + 1 \<le> hi" "nat hi < length arr1"
      using m "1.prems" l1 by simp_all
    from "1.IH"(2) [OF True s1 swo this]
    obtain arr2 where s2: "detail_mergeSort cmp arr1 (?mid + 1) hi = Some arr2"
      and l2: "length arr2 = length arr1" and t2: "take ?m arr2 = take ?m arr1"
      and d2: "drop ?b arr2 = drop ?b arr1"
      and m2: "mset (slice arr2 ?m ?b) = mset (slice arr1 ?m ?b)"
      and o2: "sorted_wrt (\<lambda>x y. \<not> cmp y x) (slice arr2 ?m ?b)" by auto
    let ?M = "merge_lists cmp (slice arr2 ?a ?m) (slice arr2 ?m ?b)"
    let ?ys = "take ?a arr2 @ ?M @ drop ?b arr2"
    have "?mid \<le> hi" "nat hi < length arr2" using "1.prems" l1 l2 m by simp_all
    with "1.prems"(2) m(1) have mg: "detail_merge cmp arr2 lo ?mid hi = Some ?ys"
      by (rule detail_merge_lists)
    have r: "detail_mergeSort cmp arr lo hi = Some ?ys"
      by (subst detail_mergeSort.simps) (simp add: True s1 s2 mg)
    have bl: "?b \<le> length arr2" using "1.prems" l1 l2 by linarith
    have e1: "slice arr2 ?a ?m = slice arr1 ?a ?m" using le_refl t2 by (rule slice_take_cong)
    have e2: "slice arr1 ?m ?b = slice arr ?m ?b" using le_refl d1 by (rule slice_drop_cong)
    have lM: "length ?M = ?b - ?a" using bl am mb by simp
    have la: "length (take ?a arr2) = ?a" using bl am mb by simp
    have len: "length ?ys = length arr" using la lM bl am mb l1 l2 by simp
    have tk: "take ?a ?ys = take ?a arr"
      using la t1 take_take_cong [OF am t2] by simp
    have "drop ?b ?ys = drop ?b arr2" using la lM am mb by simp
    also have "\<dots> = drop ?b arr" using d2 drop_drop_cong [OF mb d1] by simp
    finally have dr: "drop ?b ?ys = drop ?b arr" .
    have sl: "slice ?ys ?a ?b = ?M" using la lM am mb by (intro slice_middle) simp_all
    have "mset ?M = mset (slice arr ?a ?m) + mset (slice arr ?m ?b)"
      using m1 m2 e1 e2 by simp
    also have "\<dots> = mset (slice arr ?a ?m @ slice arr ?m ?b)" by simp
    also have "slice arr ?a ?m @ slice arr ?m ?b = slice arr ?a ?b"
      using am mb by (rule slice_append)
    finally have ms: "mset ?M = mset (slice arr ?a ?b)" .
    have so: "sorted_wrt (\<lambda>x y. \<not> cmp y x) ?M"
      using swo o1 o2 unfolding e1 by (rule merge_lists_sorted)
    have "mset (slice ?ys ?a ?b) = mset (slice arr ?a ?b)" by (simp only: sl ms)
    moreover have "sorted_wrt (\<lambda>x y. \<not> cmp y x) (slice ?ys ?a ?b)" by (simp only: sl so)
    ultimately show ?thesis using r len tk dr by blast
  qed
qed

lemma mergeSort_sorted:
  assumes "strict_weak_order cmp" and "length arr < 2 ^ 31"
  shows "\<exists>ys. mergeSort cmp arr = Some ys \<and> mset ys = mset arr \<and> isSorted cmp ys"
proof (cases "length arr > 1")
  case False
  then have "mergeSort cmp arr = Some arr" by (simp add: mergeSort_def)
  moreover have "arr = [] \<or> (\<exists>x. arr = [x])" using False by (cases arr) auto
  then have "successively (\<lambda>x y. \<not> cmp y x) arr" by auto
  ultimately show ?thesis by (simp add: isSorted_iff)
next
  case True
  let ?hi = "int (length arr) - 1"
  have c: "static_cast_int (length arr) = int (length arr)"
    using assms(2) by (rule static_cast_int_small)
  have "(0::int) \<le> 0" "0 \<le> ?hi" "nat ?hi < length arr" using True by auto
  from detail_mergeSort_sorted [OF assms(1) this] obtain ys where
    r: "detail_mergeSort cmp arr 0 ?hi = Some ys" and l: "length ys = length arr"
    and m: "mset (slice ys (nat 0) (nat (?hi + 1))) = mset (slice arr (nat 0) (nat (?hi + 1)))"
    and s: "sorted_wrt (\<lambda>x y. \<not> cmp y x) (slice ys (nat 0) (nat (?hi + 1)))" by auto
  have "slice zs (nat 0) (nat (?hi + 1)) = zs" if "length zs = length arr" for zs :: "'a list"
    using that by (simp add: slice_def)
  with m s l have "mset ys = mset arr" and "sorted_wrt (\<lambda>x y. \<not> cmp y x) ys" by simp_all
  then show ?thesis using r True c
    by (auto simp: mergeSort_def isSorted_iff intro: successively_if_sorted_wrt)
qed

subsection \<open>quickSort: the partition loop\<close>

lemma swap_same [simp]: "swap arr k k = arr"
  by (simp add: swap_def)

lemma swap_apart:
  "swap (X @ b # Y @ p # Z) (length X) (length X + 1 + length Y) = X @ p # Y @ b # Z"
  by (simp add: swap_def nth_append list_update_append)

lemma swap_int_Some:
  "0 \<le> i \<Longrightarrow> nat i < length arr \<Longrightarrow> 0 \<le> j \<Longrightarrow> nat j < length arr \<Longrightarrow>
   swap_int arr i j = Some (swap arr (nat i) (nat j))"
  by (simp add: swap_int_def)

lemma partition_loop_split:
  "0 \<le> lo \<Longrightarrow> int (length pre) = lo \<Longrightarrow>
   i = lo + int (length A) - 1 \<Longrightarrow> j = lo + int (length A) + int (length B) \<Longrightarrow>
   hi = j + int (length C) \<Longrightarrow>
   \<forall>x \<in> set A. cmp x pivot \<Longrightarrow> \<forall>x \<in> set B. \<not> cmp x pivot \<Longrightarrow>
   \<exists>A' B'. partition_loop cmp pivot hi (pre @ A @ B @ C @ suf) i j =
              Some (pre @ A' @ B' @ suf, lo + int (length A') - 1) \<and>
           mset (A' @ B') = mset (A @ B @ C) \<and>
           (\<forall>x \<in> set A'. cmp x pivot) \<and> (\<forall>x \<in> set B'. \<not> cmp x pivot)"
proof (induction C arbitrary: A B i j)
  case Nil
  then have "partition_loop cmp pivot hi (pre @ A @ B @ [] @ suf) i j =
               Some (pre @ A @ B @ suf, lo + int (length A) - 1)"
    by (subst partition_loop.simps) simp
  with Nil show ?case by fastforce
next
  case (Cons x C)
  let ?arr = "pre @ A @ B @ x # C @ suf"
  have jh: "j < hi" using Cons.prems by simp
  have j0: "0 \<le> j" using Cons.prems by simp
  have nj: "nat j = length (pre @ A @ B)" using Cons.prems by simp
  have jeq: "j = int (length (pre @ A @ B))" using Cons.prems by simp
  have at: "vec_at ?arr j = Some x"
    using vec_at_append [of "pre @ A @ B" x "C @ suf"] unfolding jeq by simp
  show ?case
  proof (cases "cmp x pivot")
    case False
    have step: "partition_loop cmp pivot hi ?arr i j =
                  partition_loop cmp pivot hi (pre @ A @ (B @ [x]) @ C @ suf) i (j + 1)"
      by (subst partition_loop.simps) (simp add: jh at False)
    have "\<forall>y \<in> set (B @ [x]). \<not> cmp y pivot" using False Cons.prems(7) by simp
    moreover have "j + 1 = lo + int (length A) + int (length (B @ [x]))"
      "hi = j + 1 + int (length C)" using Cons.prems by simp_all
    ultimately obtain A' B' where
      "partition_loop cmp pivot hi (pre @ A @ (B @ [x]) @ C @ suf) i (j + 1) =
         Some (pre @ A' @ B' @ suf, lo + int (length A') - 1)"
      and "mset (A' @ B') = mset (A @ (B @ [x]) @ C)"
      and "\<forall>x \<in> set A'. cmp x pivot" and "\<forall>x \<in> set B'. \<not> cmp x pivot"
      using Cons.IH [of i A "j + 1" "B @ [x]"] Cons.prems(1,2,3,6) by blast
    with step show ?thesis by (intro exI [of _ A'] exI [of _ B']) simp
  next
    case True
    let ?k = "length pre + length A"
    have i1: "nat (i + 1) = ?k" "0 \<le> i + 1" using Cons.prems by simp_all
    have kl: "?k < length ?arr" by simp
    have jl: "nat j < length ?arr" using nj by simp
    have sw: "swap_int ?arr (i + 1) j = Some (swap ?arr ?k (nat j))"
      using i1(2) _ j0 jl unfolding i1(1) [symmetric] by (rule swap_int_Some) (simp add: i1)
    obtain B2 where B2: "swap ?arr ?k (nat j) = pre @ (A @ [x]) @ B2 @ C @ suf"
      and mB: "mset B2 = mset B" and lB: "length B2 = length B"
    proof (cases B)
      case Nil
      then have "nat j = ?k" using nj by simp
      with Nil that [of "[]"] show ?thesis by simp
    next
      case (Cons b Bt)
      have "swap ((pre @ A) @ b # Bt @ x # (C @ suf)) (length (pre @ A))
              (length (pre @ A) + 1 + length Bt) = (pre @ A) @ x # Bt @ b # (C @ suf)"
        by (rule swap_apart)
      moreover have "nat j = length (pre @ A) + 1 + length Bt" using nj Cons by simp
      ultimately have "swap ?arr ?k (nat j) = pre @ (A @ [x]) @ (Bt @ [b]) @ C @ suf"
        using Cons by simp
      with Cons that [of "Bt @ [b]"] show ?thesis by simp
    qed
    have step: "partition_loop cmp pivot hi ?arr i j =
                  partition_loop cmp pivot hi (pre @ (A @ [x]) @ B2 @ C @ suf) (i + 1) (j + 1)"
      by (subst partition_loop.simps) (simp add: jh at True sw B2)
    have "\<forall>y \<in> set (A @ [x]). cmp y pivot" using True Cons.prems(6) by simp
    moreover have "\<forall>y \<in> set B2. \<not> cmp y pivot"
      using Cons.prems(7) mB by (metis set_mset_mset)
    moreover have "i + 1 = lo + int (length (A @ [x])) - 1"
      "j + 1 = lo + int (length (A @ [x])) + int (length B2)" "hi = j + 1 + int (length C)"
      using Cons.prems lB by simp_all
    ultimately obtain A' B' where
      "partition_loop cmp pivot hi (pre @ (A @ [x]) @ B2 @ C @ suf) (i + 1) (j + 1) =
         Some (pre @ A' @ B' @ suf, lo + int (length A') - 1)"
      and "mset (A' @ B') = mset ((A @ [x]) @ B2 @ C)"
      and "\<forall>x \<in> set A'. cmp x pivot" and "\<forall>x \<in> set B'. \<not> cmp x pivot"
      using Cons.IH [of "i + 1" "A @ [x]" "j + 1" B2] Cons.prems(1,2) by blast
    with step mB show ?thesis by (intro exI [of _ A'] exI [of _ B']) simp
  qed
qed

subsection \<open>quickSort: sorted and a permutation\<close>

lemma detail_partition_split:
  assumes "0 \<le> lo" and "int (length pre) = lo" and "hi = lo + int (length C)"
  shows "\<exists>A' B'. detail_partition cmp (pre @ C @ pivot # suf) lo hi =
                   Some (pre @ A' @ pivot # B' @ suf, lo + int (length A')) \<and>
                 mset (A' @ B') = mset C \<and>
                 (\<forall>x \<in> set A'. cmp x pivot) \<and> (\<forall>x \<in> set B'. \<not> cmp x pivot)"
proof -
  let ?arr = "pre @ C @ pivot # suf"
  have "hi = int (length (pre @ C))" using assms by simp
  then have at: "vec_at ?arr hi = Some pivot"
    using vec_at_append [of "pre @ C" pivot suf] by simp
  from partition_loop_split [of lo pre "lo - 1" "[]" lo "[]" hi C cmp pivot "pivot # suf"] assms
  obtain A1 B1 where
    loop: "partition_loop cmp pivot hi ?arr (lo - 1) lo =
             Some (pre @ A1 @ B1 @ pivot # suf, lo + int (length A1) - 1)"
    and ms: "mset (A1 @ B1) = mset C"
    and a: "\<forall>x \<in> set A1. cmp x pivot" and b: "\<forall>x \<in> set B1. \<not> cmp x pivot" by auto
  from ms have len: "length A1 + length B1 = length C" by (metis length_append size_mset)
  let ?arr1 = "pre @ A1 @ B1 @ pivot # suf"
  let ?k = "length pre + length A1"
  have k: "nat (lo + int (length A1)) = ?k" "0 \<le> lo + int (length A1)" using assms by simp_all
  have h: "nat hi = length pre + length C" "0 \<le> hi" using assms by simp_all
  have sw: "swap_int ?arr1 (lo + int (length A1)) hi = Some (swap ?arr1 ?k (nat hi))"
    using k(2) _ h(2) unfolding k(1) [symmetric]
    by (rule swap_int_Some) (use k h len in simp_all)
  obtain B2 where B2: "swap ?arr1 ?k (nat hi) = pre @ A1 @ pivot # B2 @ suf"
    and mB: "mset B2 = mset B1"
  proof (cases B1)
    case Nil
    then have "nat hi = ?k" using h len by simp
    with Nil that [of "[]"] show ?thesis by simp
  next
    case (Cons b Bt)
    have "swap ((pre @ A1) @ b # Bt @ pivot # suf) (length (pre @ A1))
            (length (pre @ A1) + 1 + length Bt) = (pre @ A1) @ pivot # Bt @ b # suf"
      by (rule swap_apart)
    moreover have "nat hi = length (pre @ A1) + 1 + length Bt" using h len Cons by simp
    ultimately have "swap ?arr1 ?k (nat hi) = pre @ A1 @ pivot # (Bt @ [b]) @ suf"
      using Cons by simp
    with Cons that [of "Bt @ [b]"] show ?thesis by simp
  qed
  have "detail_partition cmp ?arr lo hi = Some (pre @ A1 @ pivot # B2 @ suf, lo + int (length A1))"
    by (simp add: detail_partition_def at loop sw B2)
  moreover have "mset (A1 @ B2) = mset C" using ms mB by simp
  moreover have "\<forall>x \<in> set B2. \<not> cmp x pivot" using b mB by (metis set_mset_mset)
  ultimately show ?thesis using a by blast
qed

lemma detail_quickSort_sorted:
  "strict_weak_order cmp \<Longrightarrow> 0 \<le> lo \<Longrightarrow> arr = pre @ mid @ suf \<Longrightarrow> int (length pre) = lo \<Longrightarrow>
   int (length mid) = hi - lo + 1 \<Longrightarrow>
   \<exists>mid'. detail_quickSort cmp arr lo hi = Some (pre @ mid' @ suf) \<and> mset mid' = mset mid \<and>
          sorted_wrt (\<lambda>x y. \<not> cmp y x) mid'"
proof (induction cmp arr lo hi arbitrary: pre mid suf rule: detail_quickSort.induct)
  case (1 cmp arr lo hi)
  note swo = "1.prems"(1)
  show ?case
  proof (cases "lo < hi")
    case False
    then have "detail_quickSort cmp arr lo hi = Some arr"
      by (subst detail_quickSort.simps) simp
    moreover from False "1.prems"(5) have "length mid \<le> 1" by simp
    then have "mid = [] \<or> (\<exists>x. mid = [x])" by (cases mid) auto
    then have "sorted_wrt (\<lambda>x y. \<not> cmp y x) mid" by auto
    ultimately show ?thesis using "1.prems"(3) by auto
  next
    case True
    with "1.prems"(5) have "mid \<noteq> []" by auto
    then obtain C pivot where mid: "mid = C @ [pivot]" by (metis rev_exhaust)
    have hi: "hi = lo + int (length C)" using "1.prems"(5) mid by simp
    from detail_partition_split [OF "1.prems"(2,4) hi, of cmp pivot suf]
    obtain A B where
      part: "detail_partition cmp (pre @ C @ pivot # suf) lo hi =
               Some (pre @ A @ pivot # B @ suf, lo + int (length A))"
      and ms: "mset (A @ B) = mset C"
      and a: "\<forall>x \<in> set A. cmp x pivot" and b: "\<forall>x \<in> set B. \<not> cmp x pivot" by auto
    have arr: "arr = pre @ C @ pivot # suf" using "1.prems"(3) mid by simp
    let ?p = "lo + int (length A)"
    let ?arr1 = "pre @ A @ pivot # B @ suf"
    have part': "detail_partition cmp arr lo hi = Some (?arr1, ?p)" using part arr by simp
    have "?arr1 = pre @ A @ (pivot # B @ suf)" "int (length A) = ?p - 1 - lo + 1" by simp_all
    from "1.IH"(1) [OF True part' refl swo "1.prems"(2) this(1) "1.prems"(4) this(2)]
    obtain A' where q1: "detail_quickSort cmp ?arr1 lo (?p - 1) = Some (pre @ A' @ pivot # B @ suf)"
      and mA: "mset A' = mset A" and sA: "sorted_wrt (\<lambda>x y. \<not> cmp y x) A'" by auto
    let ?arr2 = "pre @ A' @ pivot # B @ suf"
    have lA: "length A' = length A" using mA by (metis size_mset)
    have len: "length A + length B = length C" using ms by (metis length_append size_mset)
    have "0 \<le> ?p + 1" "?arr2 = (pre @ A' @ [pivot]) @ B @ suf"
      "int (length (pre @ A' @ [pivot])) = ?p + 1" "int (length B) = hi - (?p + 1) + 1"
      using "1.prems"(2,4) lA len hi by simp_all
    from "1.IH"(2) [OF True part' refl q1 swo this]
    obtain B' where q2: "detail_quickSort cmp ?arr2 (?p + 1) hi = Some ((pre @ A' @ [pivot]) @ B' @ suf)"
      and mB: "mset B' = mset B" and sB: "sorted_wrt (\<lambda>x y. \<not> cmp y x) B'" by auto
    have r: "detail_quickSort cmp arr lo hi = Some (pre @ (A' @ pivot # B') @ suf)"
      by (subst detail_quickSort.simps) (simp add: True part' q1 q2)
    have a': "\<forall>x \<in> set A'. cmp x pivot" using a mA by (metis set_mset_mset)
    have b': "\<forall>x \<in> set B'. \<not> cmp x pivot" using b mB by (metis set_mset_mset)
    have cross: "\<not> cmp y x" if "x \<in> set A'" and "y \<in> set B'" for x y
    proof
      assume "cmp y x"
      moreover have "cmp x pivot" using a' that(1) by simp
      ultimately have "cmp y pivot" using swo unfolding strict_weak_order_def by blast
      with b' that(2) show False by simp
    qed
    have "\<not> cmp pivot x" if "x \<in> set A'" for x
      using a' that swo_asym [OF swo] by blast
    with cross sA sB b' have "sorted_wrt (\<lambda>x y. \<not> cmp y x) (A' @ pivot # B')"
      by (auto simp: sorted_wrt_append)
    moreover have "mset (A' @ pivot # B') = mset mid" using mA mB ms mid by simp
    ultimately show ?thesis using r by blast
  qed
qed

lemma quickSort_sorted:
  assumes "strict_weak_order cmp" and "length arr < 2 ^ 31"
  shows "\<exists>ys. quickSort cmp arr = Some ys \<and> mset ys = mset arr \<and> isSorted cmp ys"
proof (cases "length arr > 1")
  case False
  then have "quickSort cmp arr = Some arr" by (simp add: quickSort_def)
  moreover have "arr = [] \<or> (\<exists>x. arr = [x])" using False by (cases arr) auto
  then have "successively (\<lambda>x y. \<not> cmp y x) arr" by auto
  ultimately show ?thesis by (simp add: isSorted_iff)
next
  case True
  have c: "static_cast_int (length arr) = int (length arr)"
    using assms(2) by (rule static_cast_int_small)
  have "(0::int) \<le> 0" "arr = [] @ arr @ []" "int (length ([] :: 'a list)) = 0"
    "int (length arr) = (int (length arr) - 1) - 0 + 1" by simp_all
  from detail_quickSort_sorted [OF assms(1) this] obtain ys where
    "detail_quickSort cmp arr 0 (int (length arr) - 1) = Some ys" and "mset ys = mset arr"
    and "sorted_wrt (\<lambda>x y. \<not> cmp y x) ys" by auto
  then show ?thesis using True c
    by (auto simp: quickSort_def isSorted_iff intro: successively_if_sorted_wrt)
qed

subsection \<open>heapSort: the largest of a node and its children\<close>

lemma vec_at_nat: "k < length arr \<Longrightarrow> vec_at arr (int k) = Some (arr ! k)"
  by (simp add: vec_at_def)

lemma swap_int_nat:
  "i < length arr \<Longrightarrow> j < length arr \<Longrightarrow> swap_int arr (int i) (int j) = Some (swap arr i j)"
  by (simp add: swap_int_def)

lemma pick_larger_nat:
  assumes "l < length arr" and "n \<le> length arr"
  shows "pick_larger cmp arr (int n) (int l) (int c) =
           Some (int (if c < n \<and> cmp (arr ! l) (arr ! c) then c else l))"
proof (cases "c < n")
  case True
  with assms have "c < length arr" by simp
  with True assms(1) show ?thesis by (simp add: pick_larger_def vec_at_nat)
next
  case False
  then show ?thesis by (simp add: pick_larger_def)
qed

lemma swo_irrefl: "strict_weak_order cmp \<Longrightarrow> \<not> cmp x x"
  by (simp add: strict_weak_order_def)

text \<open>The index that \<open>heapify\<close> finds holds an element that compares before none of the
  elements at \<open>i\<close> and at the children of \<open>i\<close>.\<close>

lemma largest_is_top:
  assumes swo: "strict_weak_order cmp"
    and l1_def: "l1 = (if 2 * i + 1 < n \<and> cmp (arr ! i) (arr ! (2 * i + 1)) then 2 * i + 1 else i)"
    and m_def: "m = (if 2 * i + 2 < n \<and> cmp (arr ! l1) (arr ! (2 * i + 2)) then 2 * i + 2 else l1)"
  shows "\<not> cmp (arr ! m) (arr ! i)"
    and "2 * i + 1 < n \<Longrightarrow> \<not> cmp (arr ! m) (arr ! (2 * i + 1))"
    and "2 * i + 2 < n \<Longrightarrow> \<not> cmp (arr ! m) (arr ! (2 * i + 2))"
    and "m = i \<or> (m = 2 * i + 1 \<and> 2 * i + 1 < n) \<or> (m = 2 * i + 2 \<and> 2 * i + 2 < n)"
proof -
  have a: "\<not> cmp (arr ! l1) (arr ! i)"
    unfolding l1_def using swo_asym [OF swo] swo_irrefl [OF swo] by auto
  have b: "2 * i + 1 < n \<Longrightarrow> \<not> cmp (arr ! l1) (arr ! (2 * i + 1))"
    unfolding l1_def using swo_irrefl [OF swo] by auto
  have up: "\<not> cmp (arr ! m) (arr ! l1)"
    unfolding m_def using swo_asym [OF swo] swo_irrefl [OF swo] by auto
  show "\<not> cmp (arr ! m) (arr ! i)" using swo a up by (rule swo_le_trans)
  show "2 * i + 1 < n \<Longrightarrow> \<not> cmp (arr ! m) (arr ! (2 * i + 1))"
    using swo b up by (rule swo_le_trans)
  show "2 * i + 2 < n \<Longrightarrow> \<not> cmp (arr ! m) (arr ! (2 * i + 2))"
  proof (cases "cmp (arr ! l1) (arr ! (2 * i + 2))")
    case True
    assume "2 * i + 2 < n"
    with True have "m = 2 * i + 2" by (simp add: m_def)
    then show ?thesis using swo_irrefl [OF swo] by simp
  next
    case False
    then have "m = l1" by (simp add: m_def)
    with False show ?thesis by simp
  qed
  show "m = i \<or> (m = 2 * i + 1 \<and> 2 * i + 1 < n) \<or> (m = 2 * i + 2 \<and> 2 * i + 2 < n)"
    unfolding m_def l1_def by auto
qed

subsection \<open>heapSort: a swap moves the violation down\<close>

lemma drop_swap: "i < n \<Longrightarrow> j < n \<Longrightarrow> drop n (swap arr i j) = drop n arr"
  by (simp add: swap_def)

lemma heap_except_after_swap:
  assumes swo: "strict_weak_order cmp"
    and l1: "l1 = (if 2 * i + 1 < n \<and> cmp (arr ! i) (arr ! (2 * i + 1)) then 2 * i + 1 else i)"
    and m: "m = (if 2 * i + 2 < n \<and> cmp (arr ! l1) (arr ! (2 * i + 2)) then 2 * i + 2 else l1)"
    and nl: "n \<le> length arr" and si: "s \<le> i" and "i < n" and mi: "m \<noteq> i"
    and he: "heap_except cmp arr n s i"
  shows "heap_except cmp (swap arr i m) n s m"
proof -
  note top = largest_is_top [OF swo l1 m]
  from top(4) mi have mc: "m = 2 * i + 1 \<or> m = 2 * i + 2" and mn: "m < n" by auto
  have il: "i < length arr" and ml: "m < length arr" using \<open>i < n\<close> mn nl by simp_all
  let ?arr = "swap arr i m"
  have nth: "?arr ! x = (if x = m then arr ! i else if x = i then arr ! m else arr ! x)" for x
    using il ml by (rule swap_nth)
  have old: "heap_node cmp arr n k" if "s \<le> k" "k < n" "k \<noteq> i" for k
    using he that by (simp add: heap_except_def)
  have node: "heap_node cmp ?arr n k" if k: "s \<le> k" "k < n" "k \<noteq> m" for k
  proof (cases "k = i")
    case True
    have "\<not> cmp (?arr ! i) (?arr ! c)" if "c = 2 * i + 1 \<or> c = 2 * i + 2" "c < n" for c
    proof -
      have "?arr ! i = arr ! m" using mi by (simp add: nth)
      moreover have "c \<noteq> i" using that(1) by presburger
      then have "?arr ! c = (if c = m then arr ! i else arr ! c)" by (simp add: nth)
      ultimately show ?thesis using top(1,2,3) that by auto
    qed
    then show ?thesis unfolding heap_node_def True by simp
  next
    case False
    have hk: "heap_node cmp arr n k" using k(1,2) False by (rule old)
    have kk: "?arr ! k = arr ! k" using k(3) False by (simp add: nth)
    have "\<not> cmp (?arr ! k) (?arr ! c)" if c: "c = 2 * k + 1 \<or> c = 2 * k + 2" "c < n" for c
    proof -
      have cm: "c \<noteq> m" using c(1) mc False by presburger
      show ?thesis
      proof (cases "c = i")
        case True
        then have i0: "0 < i" and par: "(i - 1) div 2 = k" using c(1) by presburger+
        with k(1) he mc mn have "\<not> cmp (arr ! k) (arr ! m)"
          unfolding heap_except_def by auto
        moreover have "?arr ! c = arr ! m" using True mi by (simp add: nth)
        ultimately show ?thesis using kk by simp
      next
        case ci: False
        then have "?arr ! c = arr ! c" using cm by (simp add: nth)
        moreover have "\<not> cmp (arr ! k) (arr ! c)" using hk c unfolding heap_node_def by auto
        ultimately show ?thesis using kk by simp
      qed
    qed
    then show ?thesis unfolding heap_node_def by simp
  qed
  have par: "(m - 1) div 2 = i" using mc by presburger
  have hm: "heap_node cmp arr n m" using mn mc si mi by (intro old) auto
  have "\<not> cmp (?arr ! i) (?arr ! c)" if c: "c = 2 * m + 1 \<or> c = 2 * m + 2" "c < n" for c
  proof -
    have "c \<noteq> m" "c \<noteq> i" using c(1) mc by presburger+
    then have "?arr ! c = arr ! c" by (simp add: nth)
    moreover have "?arr ! i = arr ! m" using mi by (simp add: nth)
    moreover have "\<not> cmp (arr ! m) (arr ! c)" using hm c unfolding heap_node_def by auto
    ultimately show ?thesis by simp
  qed
  then show ?thesis unfolding heap_except_def par using node by simp
qed

subsection \<open>heapSort: heapify and the heap construction\<close>

lemma heapify_sift:
  assumes swo: "strict_weak_order cmp" and n30: "n < 2 ^ 30"
  shows "n \<le> length arr \<Longrightarrow> s \<le> i \<Longrightarrow> i < n \<Longrightarrow> heap_except cmp arr n s i \<Longrightarrow>
         \<exists>arr'. heapify cmp arr (int n) (int i) = Some arr' \<and> length arr' = length arr \<and>
                mset arr' = mset arr \<and> drop n arr' = drop n arr \<and> heap_from cmp arr' n s"
proof (induction "n - i" arbitrary: i arr rule: less_induct)
  case less
  note nl = less.prems(1) and si = less.prems(2) and i_n = less.prems(3) and he = less.prems(4)
  define l1 where "l1 = (if 2 * i + 1 < n \<and> cmp (arr ! i) (arr ! (2 * i + 1)) then 2 * i + 1 else i)"
  define m where "m = (if 2 * i + 2 < n \<and> cmp (arr ! l1) (arr ! (2 * i + 2)) then 2 * i + 2 else l1)"
  note top = largest_is_top [OF swo l1_def m_def]
  have il: "i < length arr" using i_n nl by simp
  have l1l: "l1 < length arr" using il nl by (auto simp: l1_def)
  have "Suc i < 2 ^ 30" using i_n n30 by simp
  then have "int (Suc i) < 2 ^ 30" by (metis of_nat_less_iff of_nat_numeral of_nat_power)
  then have range: "int_range (2 * int i + 1) \<and> int_range (2 * int i + 2)"
    by (simp add: int_range_def)
  have e1: "int (2 * i + 1) = 2 * int i + 1" and e2: "int (2 * i + 2) = 2 * int i + 2"
    by simp_all
  have "pick_larger cmp arr (int n) (int i) (int (2 * i + 1)) = Some (int l1)"
    unfolding l1_def by (rule pick_larger_nat [OF il nl])
  then have p1: "pick_larger cmp arr (int n) (int i) (2 * int i + 1) = Some (int l1)"
    by (simp only: e1)
  have "pick_larger cmp arr (int n) (int l1) (int (2 * i + 2)) = Some (int m)"
    unfolding m_def by (rule pick_larger_nat [OF l1l nl])
  then have p2: "pick_larger cmp arr (int n) (int l1) (2 * int i + 2) = Some (int m)"
    by (simp only: e2)
  show ?case
  proof (cases "m = i")
    case True
    have r: "heapify cmp arr (int n) (int i) = Some arr"
      by (subst heapify.simps) (simp add: range p1 p2 True)
    have "heap_node cmp arr n i" using top(2,3) True by (simp add: heap_node_def)
    with he have "heap_from cmp arr n s"
      unfolding heap_from_def heap_except_def by blast
    with r show ?thesis by simp
  next
    case False
    from top(4) False have mn: "m < n" and im: "i < m" by auto
    have ml: "m < length arr" using mn nl by simp
    let ?arr = "swap arr i m"
    have sw: "swap_int arr (int i) (int m) = Some ?arr" using il ml by (rule swap_int_nat)
    have r: "heapify cmp arr (int n) (int i) = heapify cmp ?arr (int n) (int m)"
      by (subst heapify.simps) (simp add: range p1 p2 False sw)
    have he': "heap_except cmp ?arr n s m"
      using swo l1_def m_def nl si i_n False he by (rule heap_except_after_swap)
    have "n - m < n - i" using im mn by simp
    moreover have "n \<le> length ?arr" "s \<le> m" using nl si im by simp_all
    ultimately obtain arr' where "heapify cmp ?arr (int n) (int m) = Some arr'"
      and "length arr' = length ?arr" and "mset arr' = mset ?arr"
      and "drop n arr' = drop n ?arr" and "heap_from cmp arr' n s"
      using less.hyps [of m ?arr] mn he' by blast
    moreover have "mset ?arr = mset arr" using il ml by (rule swap_mset)
    moreover have "drop n ?arr = drop n arr" using i_n mn by (rule drop_swap)
    ultimately show ?thesis using r by simp
  qed
qed

lemma heap_root_top:
  assumes swo: "strict_weak_order cmp" and h: "heap_from cmp arr n 0"
  shows "k < n \<Longrightarrow> \<not> cmp (arr ! 0) (arr ! k)"
proof (induction k rule: less_induct)
  case (less k)
  show ?case
  proof (cases "k = 0")
    case True
    then show ?thesis using swo_irrefl [OF swo] by simp
  next
    case False
    define p where "p = (k - 1) div 2"
    have pk: "p < k" and ch: "k = 2 * p + 1 \<or> k = 2 * p + 2"
      using False unfolding p_def by presburger+
    have "heap_node cmp arr n p" using h pk less.prems by (simp add: heap_from_def)
    with ch less.prems have "\<not> cmp (arr ! p) (arr ! k)" by (auto simp: heap_node_def)
    moreover have "\<not> cmp (arr ! 0) (arr ! p)" using pk less.prems by (intro less.IH) simp_all
    ultimately show ?thesis using swo by (rule swo_le_trans [rotated])
  qed
qed

lemma build_heap_heap:
  assumes swo: "strict_weak_order cmp" and n30: "n < 2 ^ 30"
  shows "n \<le> length arr \<Longrightarrow> s \<le> n \<Longrightarrow> heap_from cmp arr n s \<Longrightarrow>
         \<exists>arr'. build_heap cmp arr (int n) (int s - 1) = Some arr' \<and> length arr' = length arr \<and>
                mset arr' = mset arr \<and> drop n arr' = drop n arr \<and> heap_from cmp arr' n 0"
proof (induction s arbitrary: arr)
  case 0
  then show ?case by (subst build_heap.simps) simp
next
  case (Suc s)
  have sn: "s < n" using Suc.prems by simp
  have "heap_except cmp arr n s s"
  proof -
    have "\<not> (0 < s \<and> s \<le> (s - 1) div 2)" by presburger
    moreover have "heap_node cmp arr n k" if "s \<le> k" "k < n" "k \<noteq> s" for k
      using Suc.prems(3) that by (simp add: heap_from_def)
    ultimately show ?thesis unfolding heap_except_def by blast
  qed
  with heapify_sift [OF swo n30 Suc.prems(1) le_refl sn]
  obtain arr1 where h: "heapify cmp arr (int n) (int s) = Some arr1"
    and l1: "length arr1 = length arr" and m1: "mset arr1 = mset arr"
    and d1: "drop n arr1 = drop n arr" and h1: "heap_from cmp arr1 n s" by blast
  have "n \<le> length arr1" "s \<le> n" using Suc.prems l1 by simp_all
  from Suc.IH [OF this h1] obtain arr' where
    "build_heap cmp arr1 (int n) (int s - 1) = Some arr'" and "length arr' = length arr1"
    and "mset arr' = mset arr1" and "drop n arr' = drop n arr1" and "heap_from cmp arr' n 0"
    by blast
  moreover have "build_heap cmp arr (int n) (int (Suc s) - 1) =
                   build_heap cmp arr1 (int n) (int s - 1)"
    by (subst build_heap.simps) (simp add: h)
  ultimately show ?case using l1 m1 d1 by simp
qed

subsection \<open>heapSort: extraction and the result\<close>

lemma mset_take_cong:
  assumes "mset xs = mset ys" and "drop i xs = drop i ys"
  shows "mset (take i xs) = mset (take i ys)"
proof -
  have "mset (take i xs) + mset (drop i xs) = mset (take i ys) + mset (drop i ys)"
    using assms(1) by (metis append_take_drop_id mset_append)
  with assms(2) show ?thesis by simp
qed

lemma nth_drop_cong:
  assumes "drop i xs = drop i ys" and "length xs = length ys" and "i \<le> b" and "b < length xs"
  shows "xs ! b = ys ! b"
proof -
  have "xs ! b = drop i xs ! (b - i)" using assms(3,4) by simp
  also have "\<dots> = drop i ys ! (b - i)" using assms(1) by simp
  also have "\<dots> = ys ! b" using assms(2,3,4) by simp
  finally show ?thesis .
qed

lemma extract_all_sorted:
  assumes swo: "strict_weak_order cmp"
  shows "length arr < 2 ^ 30 \<Longrightarrow> i < length arr \<Longrightarrow> heap_from cmp arr (Suc i) 0 \<Longrightarrow>
         \<forall>a b. a < b \<and> i < b \<and> b < length arr \<longrightarrow> \<not> cmp (arr ! b) (arr ! a) \<Longrightarrow>
         \<exists>ys. extract_all cmp arr (int i) = Some ys \<and> mset ys = mset arr \<and>
              sorted_wrt (\<lambda>x y. \<not> cmp y x) ys"
proof (induction i arbitrary: arr)
  case 0
  have "extract_all cmp arr (int 0) = Some arr" by (subst extract_all.simps) simp
  moreover have "sorted_wrt (\<lambda>x y. \<not> cmp y x) arr"
    unfolding sorted_wrt_iff_nth_less using "0.prems"(4) by auto
  ultimately show ?case by simp
next
  case (Suc j)
  let ?i = "Suc j"
  let ?n = "length arr"
  note inv = Suc.prems(4)
  have il: "?i < ?n" using Suc.prems(2) .
  let ?arr1 = "swap arr 0 ?i"
  have ne: "arr \<noteq> []" using il by auto
  have nth1: "?arr1 ! x = (if x = ?i then arr ! 0 else if x = 0 then arr ! ?i else arr ! x)" for x
    using swap_nth [of 0 arr ?i x] il ne by auto
  have sw: "swap_int arr 0 (int ?i) = Some ?arr1" using swap_int_nat [of 0 arr ?i] il ne by simp
  have he: "heap_except cmp ?arr1 ?i 0 0"
  proof -
    have "heap_node cmp ?arr1 ?i k" if k: "k < ?i" "k \<noteq> 0" for k
    proof -
      have hk: "heap_node cmp arr (Suc ?i) k" using Suc.prems(3) k by (simp add: heap_from_def)
      have "\<not> cmp (?arr1 ! k) (?arr1 ! c)" if c: "c = 2 * k + 1 \<or> c = 2 * k + 2" "c < ?i" for c
      proof -
        have "?arr1 ! k = arr ! k" "?arr1 ! c = arr ! c" using k c by (auto simp: nth1)
        moreover have "\<not> cmp (arr ! k) (arr ! c)" using hk c by (auto simp: heap_node_def)
        ultimately show ?thesis by simp
      qed
      then show ?thesis by (simp add: heap_node_def)
    qed
    then show ?thesis by (simp add: heap_except_def)
  qed
  have i30: "?i < 2 ^ 30" using il Suc.prems(1) by simp
  have "?i \<le> length ?arr1" "(0::nat) \<le> 0" "0 < ?i" using il by simp_all
  from heapify_sift [OF swo i30 this he] obtain arr2 where
    hp: "heapify cmp ?arr1 (int ?i) (int 0) = Some arr2" and l2: "length arr2 = ?n"
    and m2: "mset arr2 = mset ?arr1" and d2: "drop ?i arr2 = drop ?i ?arr1"
    and h2: "heap_from cmp arr2 ?i 0" by auto
  have step: "extract_all cmp arr (int ?i) = extract_all cmp arr2 (int j)"
  proof -
    have "extract_all cmp arr (int ?i) =
          (case swap_int arr 0 (int ?i) of None \<Rightarrow> None
           | Some arr1 \<Rightarrow>
               case heapify cmp arr1 (int ?i) 0 of None \<Rightarrow> None
               | Some arr2 \<Rightarrow> extract_all cmp arr2 (int ?i - 1))"
      by (subst extract_all.simps) simp
    also have "\<dots> = extract_all cmp arr2 (int ?i - 1)"
      using hp by (simp only: sw option.case) simp
    also have "int ?i - 1 = int j" by simp
    finally show ?thesis .
  qed
  have m1: "mset ?arr1 = mset arr" using swap_mset [of 0 arr ?i] il ne by simp
  have high: "arr2 ! b = ?arr1 ! b" if "?i \<le> b" "b < ?n" for b
    using d2 _ that(1) by (rule nth_drop_cong) (use l2 that in simp_all)
  have low: "\<exists>a'. a' \<le> ?i \<and> arr2 ! a = arr ! a'" if "a < ?i" for a
  proof -
    have "arr2 ! a \<in> set (take ?i arr2)" using that l2 il by (simp add: in_set_conv_nth) force
    also have "set (take ?i arr2) = set (take ?i ?arr1)"
      using mset_take_cong [OF m2 d2] by (metis set_mset_mset)
    finally obtain x where "x < ?i" and "arr2 ! a = ?arr1 ! x"
      using il by (auto simp: in_set_conv_nth)
    then show ?thesis by (cases "x = 0") (auto simp: nth1 intro: less_imp_le)
  qed
  have root: "\<not> cmp (arr ! 0) (arr ! a')" if "a' \<le> ?i" for a'
    using swo Suc.prems(3) by (rule heap_root_top) (use that in simp)
  have inv2: "\<forall>a b. a < b \<and> j < b \<and> b < length arr2 \<longrightarrow> \<not> cmp (arr2 ! b) (arr2 ! a)"
  proof (intro allI impI)
    fix a b assume ab: "a < b \<and> j < b \<and> b < length arr2"
    then have bi: "?i \<le> b" and bn: "b < ?n" using l2 by simp_all
    have vb: "arr2 ! b = (if b = ?i then arr ! 0 else arr ! b)"
      using high [OF bi bn] bi by (simp add: nth1)
    show "\<not> cmp (arr2 ! b) (arr2 ! a)"
    proof (cases "a < ?i")
      case True
      from low [OF True] obtain a' where a': "a' \<le> ?i" "arr2 ! a = arr ! a'" by blast
      show ?thesis
      proof (cases "b = ?i")
        case True
        with vb a' root show ?thesis by simp
      next
        case False
        with bi have "?i < b" by simp
        moreover have "a' < b" using a'(1) \<open>?i < b\<close> by simp
        ultimately have "\<not> cmp (arr ! b) (arr ! a')" using inv bn by simp
        with vb False a' show ?thesis by simp
      qed
    next
      case False
      then have ai: "?i \<le> a" by simp
      with ab have ib: "?i < b" by simp
      have va: "arr2 ! a = (if a = ?i then arr ! 0 else arr ! a)"
        using high [of a] ai ab bn by (auto simp: nth1)
      have "\<not> cmp (arr ! b) (arr ! a)" "\<not> cmp (arr ! b) (arr ! 0)"
        using inv ab ib bn by simp_all
      with va vb ib show ?thesis by simp
    qed
  qed
  have "length arr2 < 2 ^ 30" "j < length arr2" using Suc.prems(1) l2 il by simp_all
  from Suc.IH [OF this h2 inv2] obtain ys where "extract_all cmp arr2 (int j) = Some ys"
    and "mset ys = mset arr2" and "sorted_wrt (\<lambda>x y. \<not> cmp y x) ys" by blast
  with step m2 m1 show ?case by simp
qed

lemma cpp_div_nat: "cpp_div (int n) 2 = int (n div 2)"
  by (cases "n = 0") (simp_all add: cpp_div_def zdiv_int)

lemma heapSort_sorted:
  assumes swo: "strict_weak_order cmp" and n30: "length arr < 2 ^ 30"
  shows "\<exists>ys. heapSort cmp arr = Some ys \<and> mset ys = mset arr \<and> isSorted cmp ys"
proof -
  let ?n = "length arr"
  have "?n < 2 ^ 31" using n30 by simp
  then have c: "static_cast_int ?n = int ?n" by (rule static_cast_int_small)
  have "heap_from cmp arr ?n (?n div 2)"
    unfolding heap_from_def heap_node_def by auto
  with build_heap_heap [OF swo n30 le_refl, of "?n div 2"]
  obtain arr1 where b: "build_heap cmp arr (int ?n) (int (?n div 2) - 1) = Some arr1"
    and l1: "length arr1 = ?n" and m1: "mset arr1 = mset arr"
    and h1: "heap_from cmp arr1 ?n 0" by auto
  have r: "heapSort cmp arr = extract_all cmp arr1 (int ?n - 1)"
    by (simp add: heapSort_def c cpp_div_nat b)
  show ?thesis
  proof (cases "?n = 0")
    case True
    then have "extract_all cmp arr1 (int ?n - 1) = Some arr1"
      by (subst extract_all.simps) simp
    with r True l1 m1 show ?thesis by (simp add: isSorted_iff)
  next
    case False
    then obtain i where i: "?n = Suc i" by (cases ?n) auto
    have "length arr1 < 2 ^ 30" "i < length arr1" "heap_from cmp arr1 (Suc i) 0"
      "\<forall>a b. a < b \<and> i < b \<and> b < length arr1 \<longrightarrow> \<not> cmp (arr1 ! b) (arr1 ! a)"
      using n30 l1 i h1 by auto
    from extract_all_sorted [OF swo this] obtain ys where
      "extract_all cmp arr1 (int i) = Some ys" and "mset ys = mset arr1"
      and "sorted_wrt (\<lambda>x y. \<not> cmp y x) ys" by blast
    moreover have "int ?n - 1 = int i" using i by simp
    ultimately show ?thesis using r m1
      by (auto simp: isSorted_iff intro: successively_if_sorted_wrt)
  qed
qed

subsection \<open>The claims about sorting\<close>

text \<open>
  Claim C1 says that each of the six sorts, on every vector, the empty one included, leaves
  a sorted permutation. \<open>bubbleSort\<close> computes \<open>n - 1\<close> in \<open>size_t\<close>: on the empty vector this
  is \<open>2 ^ 64 - 1\<close>, both loops are entered, and the first comparison reads \<open>arr[1]\<close> and
  \<open>arr[0]\<close> of a vector without elements. The call has no defined result, whatever the
  comparator. On every other input within the index range the six sorts do leave a sorted
  permutation: \<open>bubbleSort_sorted\<close> and \<open>selectionSort_sorted\<close> for non-empty vectors,
  \<open>selectionSort_empty\<close>, \<open>insertionSort_sorted_stable\<close>, \<open>mergeSort_sorted\<close>,
  \<open>quickSort_sorted\<close> and \<open>heapSort_sorted\<close> above.
\<close>

theorem C1_bubbleSort_empty_vector: "bubbleSort cmp [] = None"
  by (simp add: bubbleSort_def bubble_outer.simps bubble_inner.simps size_t_sub_def)

text \<open>
  Claim C3 says that \<open>insertionSort\<close> and \<open>mergeSort\<close> are stable. \<open>detail::merge\<close> takes the
  element of the left run only when it compares strictly before the element of the right
  run, so of two equal elements the one from the right run comes first: \<open>mergeSort\<close> turns
  two records with the same key around.
\<close>

theorem C3_mergeSort_reorders_equal_keys:
  "mergeSort by_key [(1, ''a''), (1, ''b'')] = Some [(1, ''b''), (1, ''a'')]"
  by (simp add: mergeSort_def static_cast_int_def detail_mergeSort.simps detail_merge_def
      merge_both.simps merge_rest.simps merge_copy.simps vec_at_def vec_set_def push_temp_def
      by_key_def)

lemma mergeSort_not_stable:
  "\<not> stable_output by_key [(1, ''a''), (1, ''b'')] [(1, ''b''), (1, ''a'')]"
  by (simp add: stable_output_def equal_under_def by_key_def)

end
